theory Spec2Isabelle
  imports Main "HOL-Library.Sublist"
begin

section \<open>Data model\<close>

text \<open>
  The endpoint of the external-dns library, with the four fields the provider reads:
  the DNS name, the ordered targets, the record type and the TTL.
\<close>

record Endpoint =
  DNSName :: string
  Targets :: "string list"
  RecordType :: string
  RecordTTL :: int

text \<open>A record of the registrar (goinwx NameserverRecord), with the fields the provider reads.\<close>

record NameserverRecord =
  ID :: int
  Name :: string
  Type :: string
  Content :: string
  TTL :: int
  Priority :: int

text \<open>
  The request of a create or an update (goinwx NameserverRecordRequest). The provider
  sets these five fields and leaves every other one at its zero value.
\<close>

record NameserverRecordRequest =
  ReqDomain :: string
  ReqName :: string
  ReqType :: string
  ReqTTL :: int
  ReqContent :: string

text \<open>The change plan of external-dns (plan.Changes).\<close>

record Changes =
  Create :: "Endpoint list"
  UpdateOld :: "Endpoint list"
  UpdateNew :: "Endpoint list"
  Delete :: "Endpoint list"

text \<open>
  Go's error values. An error that a backend call returned is carried unchanged
  (\<open>ClientError\<close> with the backend's message); the provider's own errors are the three
  \<open>fmt.Errorf\<close> values of the source and the wrapped fetch error of \<open>Records\<close>.
\<close>

type_synonym client_error = string

datatype error =
  ClientError client_error
  | NoMatchingZone Endpoint
  | UnresolvedTargets
  | Aggregated nat
  | ZoneInfoError string client_error

text \<open>A run-time panic of Go: an index expression out of range (index, length).\<close>

datatype panic = IndexOutOfRange nat nat

datatype 'a outcome = Returned 'a | Panicked panic

section \<open>String functions of Go's standard library\<close>

text \<open>
  \<open>strings.HasSuffix(s, suffix)\<close> is
  \<open>len(s) >= len(suffix) && s[len(s)-len(suffix):] == suffix\<close>, and
  \<open>strings.TrimSuffix(s, suffix)\<close> cuts the suffix when it is one and returns
  \<open>s\<close> unchanged otherwise. Strings are byte sequences, as \<open>len\<close> counts them.
\<close>

definition HasSuffix :: "string \<Rightarrow> string \<Rightarrow> bool" where
  "HasSuffix s suf = (length suf \<le> length s \<and> drop (length s - length suf) s = suf)"

definition TrimSuffix :: "string \<Rightarrow> string \<Rightarrow> string" where
  "TrimSuffix s suf = (if HasSuffix s suf then take (length s - length suf) s else s)"

section \<open>Zone resolver\<close>

text \<open>
  \<open>getZone\<close> returns a pair, as the Go function does: the matched zone name and the
  error, which stays the "unable find matching zone" error until a zone is selected.
\<close>

fun getZone_loop :: "string \<Rightarrow> string list \<Rightarrow> string \<times> error option \<Rightarrow> string \<times> error option" where
  "getZone_loop dns [] acc = acc"
| "getZone_loop dns (zone # zones) (matchZoneName, err) =
     (if HasSuffix dns zone \<and> length zone > length matchZoneName
      then getZone_loop dns zones (zone, None)
      else getZone_loop dns zones (matchZoneName, err))"

definition getZone :: "string list \<Rightarrow> Endpoint \<Rightarrow> string \<times> error option" where
  "getZone zones endpoint =
     getZone_loop (DNSName endpoint) zones ([], Some (NoMatchingZone endpoint))"

section \<open>Record locator\<close>

text \<open>
  The two nested loops of \<open>getRecIDs\<close>: for each target, a scan of the snapshot that
  appends the identifier of each matching record. On a length mismatch the function
  returns the nil slice (the empty list) together with the error.
\<close>

fun getRecIDs_scan :: "string \<Rightarrow> Endpoint \<Rightarrow> string \<Rightarrow> NameserverRecord list \<Rightarrow> int list \<Rightarrow> int list" where
  "getRecIDs_scan zone ep target [] recIDs = recIDs"
| "getRecIDs_scan zone ep target (record # records) recIDs =
     (let targetDNSName = (if Name record = [] then zone else Name record @ ''.'' @ zone)
      in if RecordType ep = Type record \<and> target = Content record \<and> targetDNSName = DNSName ep
         then getRecIDs_scan zone ep target records (recIDs @ [ID record])
         else getRecIDs_scan zone ep target records recIDs)"

fun getRecIDs_targets :: "string \<Rightarrow> NameserverRecord list \<Rightarrow> Endpoint \<Rightarrow> string list \<Rightarrow> int list \<Rightarrow> int list" where
  "getRecIDs_targets zone records ep [] recIDs = recIDs"
| "getRecIDs_targets zone records ep (target # targets) recIDs =
     getRecIDs_targets zone records ep targets (getRecIDs_scan zone ep target records recIDs)"

definition getRecIDs :: "string \<Rightarrow> NameserverRecord list \<Rightarrow> Endpoint \<Rightarrow> int list \<times> error option" where
  "getRecIDs zone records ep =
     (let recIDs = getRecIDs_targets zone records ep (Targets ep) []
      in if length recIDs \<noteq> length (Targets ep) then ([], Some UnresolvedTargets)
         else (recIDs, None))"

text \<open>
  The locator as the specification words it: the derived fully-qualified name of a
  record, the three-way match, and the identifiers of all matches, target by target.
\<close>

definition fqdn :: "string \<Rightarrow> NameserverRecord \<Rightarrow> string" where
  "fqdn zone record = (if Name record = [] then zone else Name record @ ''.'' @ zone)"

definition recordMatches :: "string \<Rightarrow> Endpoint \<Rightarrow> string \<Rightarrow> NameserverRecord \<Rightarrow> bool" where
  "recordMatches zone ep target record =
     (Type record = RecordType ep \<and> Content record = target \<and> fqdn zone record = DNSName ep)"

definition matchingIDs :: "string \<Rightarrow> NameserverRecord list \<Rightarrow> Endpoint \<Rightarrow> int list" where
  "matchingIDs zone records ep =
     concat (map (\<lambda>target. map ID (filter (recordMatches zone ep target) records)) (Targets ep))"

definition getRecIDs_spec :: "string \<Rightarrow> NameserverRecord list \<Rightarrow> Endpoint \<Rightarrow> int list \<times> error option" where
  "getRecIDs_spec zone records ep =
     (if length (matchingIDs zone records ep) = length (Targets ep)
      then (matchingIDs zone records ep, None)
      else ([], Some UnresolvedTargets))"

section \<open>The backend interface\<close>

text \<open>
  \<open>AbstractClientWrapper\<close>, the seven operations of the registrar client. The state
  of the backend is threaded through every call; an operation returns Go's error (or the
  value) together with the new state. The login response is dropped, as both callers
  drop it.
\<close>

record 's AbstractClientWrapper =
  login :: "'s \<Rightarrow> client_error option \<times> 's"
  logout :: "'s \<Rightarrow> client_error option \<times> 's"
  getRecords :: "string \<Rightarrow> 's \<Rightarrow> (client_error + NameserverRecord list) \<times> 's"
  getZones :: "'s \<Rightarrow> (client_error + string list) \<times> 's"
  createRecord :: "NameserverRecordRequest \<Rightarrow> 's \<Rightarrow> client_error option \<times> 's"
  updateRecord :: "int \<Rightarrow> NameserverRecordRequest \<Rightarrow> 's \<Rightarrow> client_error option \<times> 's"
  deleteRecord :: "int \<Rightarrow> 's \<Rightarrow> client_error option \<times> 's"

type_synonym recordsCache = "string \<rightharpoonup> NameserverRecord list"

section \<open>Listing\<close>

text \<open>
  \<open>endpoint.NewEndpointWithTTL\<close> belongs to the external-dns library: it stores the
  name and the targets with one trailing dot trimmed. (The library returns nil for a name
  with a label of more than 63 bytes; that case is outside this model.)
\<close>

definition NewEndpointWithTTL :: "string \<Rightarrow> string \<Rightarrow> int \<Rightarrow> string list \<Rightarrow> Endpoint" where
  "NewEndpointWithTTL dnsName recordType ttl targets =
     \<lparr>DNSName = TrimSuffix dnsName ''.'',
      Targets = map (\<lambda>target. TrimSuffix target ''.'') targets,
      RecordType = recordType,
      RecordTTL = ttl\<rparr>"

fun Records_records :: "string \<Rightarrow> NameserverRecord list \<Rightarrow> Endpoint list \<Rightarrow> Endpoint list" where
  "Records_records zone [] endpoints = endpoints"
| "Records_records zone (rec # records) endpoints =
     (let name = Name rec @ ''.'' @ zone;
          ep = NewEndpointWithTTL name (Type rec) (TTL rec) [Content rec]
      in Records_records zone records (endpoints @ [ep]))"

fun Records_zones :: "'s AbstractClientWrapper \<Rightarrow> string list \<Rightarrow> Endpoint list \<Rightarrow> 's \<Rightarrow> (error + Endpoint list) \<times> 's" where
  "Records_zones c [] endpoints s = (Inr endpoints, s)"
| "Records_zones c (zone # zones) endpoints s =
     (case getRecords c zone s of
        (Inl err, s') \<Rightarrow> (Inl (ZoneInfoError zone err), s')
      | (Inr records, s') \<Rightarrow> Records_zones c zones (Records_records zone records endpoints) s')"

definition Records :: "'s AbstractClientWrapper \<Rightarrow> 's \<Rightarrow> (error + Endpoint list) \<times> 's" where
  "Records c s =
     (case login c s of
        (Some err, s1) \<Rightarrow> (Inl (ClientError err), s1)
      | (None, s1) \<Rightarrow>
          (case (case getZones c s1 of
                   (Inl err, s2) \<Rightarrow> (Inl (ClientError err), s2)
                 | (Inr zones, s2) \<Rightarrow> Records_zones c zones [] s2) of
             (result, s3) \<Rightarrow> (result, snd (logout c s3))))"

section \<open>Applying a change plan\<close>

text \<open>
  \<open>plan.Changes.HasChanges\<close> belongs to the external-dns library: a plan has changes
  when Create or Delete is non-empty, or UpdateNew differs from UpdateOld.
\<close>

definition HasChanges :: "Changes \<Rightarrow> bool" where
  "HasChanges changes =
     (length (Create changes) > 0 \<or> length (Delete changes) > 0
      \<or> UpdateNew changes \<noteq> UpdateOld changes)"

text \<open>
  The snapshot of a zone, from the cache of the phase or fetched and then cached
  (the source writes this block twice, in the delete and in the update loop). A failed
  fetch leaves the cache as it is.
\<close>

definition cachedRecords ::
  "'s AbstractClientWrapper \<Rightarrow> recordsCache \<Rightarrow> string \<Rightarrow> 's
     \<Rightarrow> (client_error + NameserverRecord list) \<times> recordsCache \<times> 's" where
  "cachedRecords c cache zone s =
     (case cache zone of
        Some recs \<Rightarrow> (Inr recs, cache, s)
      | None \<Rightarrow>
          (case getRecords c zone s of
             (Inl err, s') \<Rightarrow> (Inl err, cache, s')
           | (Inr recs, s') \<Rightarrow> (Inr recs, cache(zone \<mapsto> recs), s')))"

text \<open>
  The relative name of a request (the source writes this conditional twice, in the
  create and in the update loop).
\<close>

definition relativeName :: "string \<Rightarrow> string \<Rightarrow> string" where
  "relativeName dnsName zone =
     (if dnsName = zone then [] else TrimSuffix dnsName (''.'' @ zone))"

subsection \<open>Delete phase\<close>

fun deleteRecIDs :: "'s AbstractClientWrapper \<Rightarrow> int list \<Rightarrow> error list \<times> 's \<Rightarrow> error list \<times> 's" where
  "deleteRecIDs c [] (errs, s) = (errs, s)"
| "deleteRecIDs c (recID # recIDs) (errs, s) =
     (case deleteRecord c recID s of
        (Some err, s') \<Rightarrow> deleteRecIDs c recIDs (errs @ [ClientError err], s')
      | (None, s') \<Rightarrow> deleteRecIDs c recIDs (errs, s'))"

fun deleteEndpoint ::
  "'s AbstractClientWrapper \<Rightarrow> string list \<Rightarrow> Endpoint \<Rightarrow> error list \<times> recordsCache \<times> 's
     \<Rightarrow> error list \<times> recordsCache \<times> 's" where
  "deleteEndpoint c zones ep (errs, cache, s) =
     (case getZone zones ep of
        (zone, Some err) \<Rightarrow> (errs @ [err], cache, s)
      | (zone, None) \<Rightarrow>
          (case cachedRecords c cache zone s of
             (Inl err, cache', s') \<Rightarrow> (errs @ [ClientError err], cache', s')
           | (Inr recs, cache', s') \<Rightarrow>
               (case getRecIDs zone recs ep of
                  (recIDs, err) \<Rightarrow>
                    (case deleteRecIDs c recIDs
                            (case err of Some e \<Rightarrow> errs @ [e] | None \<Rightarrow> errs, s') of
                       (errs', s'') \<Rightarrow> (errs', cache', s'')))))"

fun deletePhase ::
  "'s AbstractClientWrapper \<Rightarrow> string list \<Rightarrow> Endpoint list \<Rightarrow> error list \<times> recordsCache \<times> 's
     \<Rightarrow> error list \<times> recordsCache \<times> 's" where
  "deletePhase c zones [] st = st"
| "deletePhase c zones (ep # eps) st = deletePhase c zones eps (deleteEndpoint c zones ep st)"

subsection \<open>Create phase\<close>

fun createTargets ::
  "'s AbstractClientWrapper \<Rightarrow> string \<Rightarrow> Endpoint \<Rightarrow> string list \<Rightarrow> error list \<times> 's
     \<Rightarrow> error list \<times> 's" where
  "createTargets c zone ep [] (errs, s) = (errs, s)"
| "createTargets c zone ep (target # targets) (errs, s) =
     (let name = relativeName (DNSName ep) zone;
          rec = \<lparr>ReqDomain = zone, ReqName = name, ReqType = RecordType ep,
                 ReqTTL = RecordTTL ep, ReqContent = target\<rparr>
      in case createRecord c rec s of
           (Some err, s') \<Rightarrow> createTargets c zone ep targets (errs @ [ClientError err], s')
         | (None, s') \<Rightarrow> createTargets c zone ep targets (errs, s'))"

fun createEndpoint ::
  "'s AbstractClientWrapper \<Rightarrow> string list \<Rightarrow> Endpoint \<Rightarrow> error list \<times> 's \<Rightarrow> error list \<times> 's" where
  "createEndpoint c zones ep (errs, s) =
     (case getZone zones ep of
        (zone, Some err) \<Rightarrow> (errs @ [err], s)
      | (zone, None) \<Rightarrow> createTargets c zone ep (Targets ep) (errs, s))"

fun createPhase ::
  "'s AbstractClientWrapper \<Rightarrow> string list \<Rightarrow> Endpoint list \<Rightarrow> error list \<times> 's \<Rightarrow> error list \<times> 's" where
  "createPhase c zones [] st = st"
| "createPhase c zones (ep # eps) st = createPhase c zones eps (createEndpoint c zones ep st)"

subsection \<open>Update phase\<close>

text \<open>
  The alignment loop over the positions \<open>j\<close>. An index expression out of range panics:
  \<open>recIDs[j]\<close> in the delete and in the update branch, and \<open>oldEp.Targets[j]\<close>, which
  the delete branch evaluates for its log line when the delete failed.
\<close>

fun alignTargets ::
  "'s AbstractClientWrapper \<Rightarrow> string \<Rightarrow> string \<Rightarrow> Endpoint \<Rightarrow> Endpoint \<Rightarrow> int list \<Rightarrow> nat list
     \<Rightarrow> error list \<times> 's \<Rightarrow> (panic + error list) \<times> 's" where
  "alignTargets c zone name oldEp newEp recIDs [] (errs, s) = (Inr errs, s)"
| "alignTargets c zone name oldEp newEp recIDs (j # js) (errs, s) =
     (if j \<ge> length (Targets newEp) then
        (if j < length recIDs then
           (case deleteRecord c (recIDs ! j) s of
              (Some err, s') \<Rightarrow>
                (if j < length (Targets oldEp)
                 then alignTargets c zone name oldEp newEp recIDs js (errs @ [ClientError err], s')
                 else (Inl (IndexOutOfRange j (length (Targets oldEp))), s'))
            | (None, s') \<Rightarrow> alignTargets c zone name oldEp newEp recIDs js (errs, s'))
         else (Inl (IndexOutOfRange j (length recIDs)), s))
      else if j \<ge> length (Targets oldEp) then
        (case createRecord c
                \<lparr>ReqDomain = zone, ReqName = name, ReqType = RecordType newEp,
                 ReqTTL = RecordTTL newEp, ReqContent = Targets newEp ! j\<rparr> s of
           (Some err, s') \<Rightarrow>
             alignTargets c zone name oldEp newEp recIDs js (errs @ [ClientError err], s')
         | (None, s') \<Rightarrow> alignTargets c zone name oldEp newEp recIDs js (errs, s'))
      else
        (if j < length recIDs then
           (case updateRecord c (recIDs ! j)
                   \<lparr>ReqDomain = zone, ReqName = name, ReqType = RecordType newEp,
                    ReqTTL = RecordTTL oldEp, ReqContent = Targets newEp ! j\<rparr> s of
              (Some err, s') \<Rightarrow>
                alignTargets c zone name oldEp newEp recIDs js (errs @ [ClientError err], s')
            | (None, s') \<Rightarrow> alignTargets c zone name oldEp newEp recIDs js (errs, s'))
         else (Inl (IndexOutOfRange j (length recIDs)), s)))"

fun updatePair ::
  "'s AbstractClientWrapper \<Rightarrow> string list \<Rightarrow> Endpoint \<Rightarrow> Endpoint
     \<Rightarrow> error list \<times> recordsCache \<times> 's \<Rightarrow> (panic + error list) \<times> recordsCache \<times> 's" where
  "updatePair c zones oldEp newEp (errs, cache, s) =
     (case getZone zones oldEp of
        (zone, Some err) \<Rightarrow> (Inr (errs @ [err]), cache, s)
      | (zone, None) \<Rightarrow>
          (case cachedRecords c cache zone s of
             (Inl err, cache', s') \<Rightarrow> (Inr (errs @ [ClientError err]), cache', s')
           | (Inr recs, cache', s') \<Rightarrow>
               (case getRecIDs zone recs oldEp of
                  (recIDs, err) \<Rightarrow>
                    (case alignTargets c zone (relativeName (DNSName newEp) zone) oldEp newEp recIDs
                            [0 ..< max (length (Targets oldEp))
                                       (max (length (Targets newEp)) (length recIDs))]
                            (case err of Some e \<Rightarrow> errs @ [e] | None \<Rightarrow> errs, s') of
                       (result, s'') \<Rightarrow> (result, cache', s'')))))"

text \<open>
  The loop over the pairs. \<open>changes.UpdateNew[i]\<close> panics when UpdateNew is shorter than
  UpdateOld; a panic ends the loop.
\<close>

fun updatePhase ::
  "'s AbstractClientWrapper \<Rightarrow> string list \<Rightarrow> Endpoint list \<Rightarrow> Endpoint list \<Rightarrow> nat
     \<Rightarrow> error list \<times> recordsCache \<times> 's \<Rightarrow> (panic + error list) \<times> recordsCache \<times> 's" where
  "updatePhase c zones [] updateNew i (errs, cache, s) = (Inr errs, cache, s)"
| "updatePhase c zones (oldEp # updateOld) updateNew i (errs, cache, s) =
     (if i < length updateNew then
        (case updatePair c zones oldEp (updateNew ! i) (errs, cache, s) of
           (Inl p, cache', s') \<Rightarrow> (Inl p, cache', s')
         | (Inr errs', cache', s') \<Rightarrow> updatePhase c zones updateOld updateNew (Suc i) (errs', cache', s'))
      else (Inl (IndexOutOfRange i (length updateNew)), cache, s))"

subsection \<open>The three phases and the whole call\<close>

text \<open>
  The body of \<open>ApplyChanges\<close> from the listing of the zones on: the delete phase, the
  create phase and the update phase, each of the two caching phases from an empty cache,
  and the aggregate error at the end.
\<close>

definition applyPhases ::
  "'s AbstractClientWrapper \<Rightarrow> string list \<Rightarrow> Changes \<Rightarrow> 's \<Rightarrow> error option outcome \<times> 's" where
  "applyPhases c zones changes s =
     (case deletePhase c zones (Delete changes) ([], Map.empty, s) of
        (errs1, cache1, s1) \<Rightarrow>
          (case createPhase c zones (Create changes) (errs1, s1) of
             (errs2, s2) \<Rightarrow>
               (case updatePhase c zones (UpdateOld changes) (UpdateNew changes) 0
                       (errs2, Map.empty, s2) of
                  (Inl p, cache3, s3) \<Rightarrow> (Panicked p, s3)
                | (Inr errs, cache3, s3) \<Rightarrow>
                    (if length errs > 0 then (Returned (Some (Aggregated (length errs))), s3)
                     else (Returned None, s3)))))"

text \<open>
  The whole call. The deferred logout runs on every exit after a successful login, a
  panic included; its error is logged and dropped.
\<close>

definition ApplyChanges ::
  "'s AbstractClientWrapper \<Rightarrow> Changes \<Rightarrow> 's \<Rightarrow> error option outcome \<times> 's" where
  "ApplyChanges c changes s =
     (if \<not> HasChanges changes then (Returned None, s)
      else
        (case login c s of
           (Some err, s1) \<Rightarrow> (Returned (Some (ClientError err)), s1)
         | (None, s1) \<Rightarrow>
             (case (case getZones c s1 of
                      (Inl err, s2) \<Rightarrow> (Returned (Some (ClientError err)), s2)
                    | (Inr zones, s2) \<Rightarrow> applyPhases c zones changes s2) of
                (result, s3) \<Rightarrow> (result, snd (logout c s3)))))"

section \<open>Observing the backend calls\<close>

text \<open>
  A call of the interface, and an event: the call with the error it returned. The client
  \<open>traced c\<close> behaves as \<open>c\<close> and appends an event to a log for every call it serves,
  so the log of a run is the sequence of backend operations the run issued.
\<close>

datatype call =
  Login
  | Logout
  | GetRecords string
  | GetZones
  | CreateRecord NameserverRecordRequest
  | UpdateRecord int NameserverRecordRequest
  | DeleteRecord int

type_synonym event = "call \<times> client_error option"

definition failure :: "client_error + 'a \<Rightarrow> client_error option" where
  "failure r = (case r of Inl err \<Rightarrow> Some err | Inr v \<Rightarrow> None)"

definition traced :: "'s AbstractClientWrapper \<Rightarrow> ('s \<times> event list) AbstractClientWrapper" where
  "traced c =
     \<lparr>login = (\<lambda>(s, t). case login c s of (r, s') \<Rightarrow> (r, (s', t @ [(Login, r)]))),
      logout = (\<lambda>(s, t). case logout c s of (r, s') \<Rightarrow> (r, (s', t @ [(Logout, r)]))),
      getRecords = (\<lambda>zone (s, t). case getRecords c zone s of
                      (r, s') \<Rightarrow> (r, (s', t @ [(GetRecords zone, failure r)]))),
      getZones = (\<lambda>(s, t). case getZones c s of (r, s') \<Rightarrow> (r, (s', t @ [(GetZones, failure r)]))),
      createRecord = (\<lambda>req (s, t). case createRecord c req s of
                        (r, s') \<Rightarrow> (r, (s', t @ [(CreateRecord req, r)]))),
      updateRecord = (\<lambda>recID req (s, t). case updateRecord c recID req s of
                        (r, s') \<Rightarrow> (r, (s', t @ [(UpdateRecord recID req, r)]))),
      deleteRecord = (\<lambda>recID (s, t). case deleteRecord c recID s of
                        (r, s') \<Rightarrow> (r, (s', t @ [(DeleteRecord recID, r)])))\<rparr>"

text \<open>The errors of the failed calls of a log, and the zones of its successful fetches.\<close>

definition failures :: "event list \<Rightarrow> error list" where
  "failures t = concat (map (\<lambda>(c, r). case r of Some err \<Rightarrow> [ClientError err] | None \<Rightarrow> []) t)"

definition fetched :: "event list \<Rightarrow> string list" where
  "fetched t = concat (map (\<lambda>(c, r). case (c, r) of (GetRecords zone, None) \<Rightarrow> [zone] | _ \<Rightarrow> []) t)"

section \<open>A backend that answers from a table\<close>

text \<open>
  An implementation of the interface for concrete runs: the login answers with a fixed
  result, the zones are a fixed list, the records of a zone come from a table (a zone
  that the table lacks fails to fetch), and every mutation answers with a fixed result.
\<close>

record Backend =
  loginResult :: "client_error option"
  zoneList :: "string list"
  zoneTable :: "(string \<times> NameserverRecord list) list"
  mutationResult :: "client_error option"

definition tableClient :: "Backend AbstractClientWrapper" where
  "tableClient =
     \<lparr>login = (\<lambda>b. (loginResult b, b)),
      logout = (\<lambda>b. (None, b)),
      getRecords = (\<lambda>zone b. (case map_of (zoneTable b) zone of
                                 None \<Rightarrow> Inl ''unable to retrieve records''
                               | Some recs \<Rightarrow> Inr recs, b)),
      getZones = (\<lambda>b. (Inr (zoneList b), b)),
      createRecord = (\<lambda>req b. (mutationResult b, b)),
      updateRecord = (\<lambda>recID req b. (mutationResult b, b)),
      deleteRecord = (\<lambda>recID b. (mutationResult b, b))\<rparr>"

text \<open>Concrete inputs for the runs below.\<close>

abbreviation exampleRecord :: NameserverRecord where
  "exampleRecord \<equiv>
     \<lparr>ID = 7, Name = ''a'', Type = ''A'', Content = ''1.1.1.1'', TTL = 300, Priority = 0\<rparr>"

abbreviation exampleBackend :: Backend where
  "exampleBackend \<equiv>
     \<lparr>loginResult = None, zoneList = [''example.com''],
      zoneTable = [(''example.com'', [exampleRecord])], mutationResult = None\<rparr>"

abbreviation exampleEndpoint :: "string list \<Rightarrow> int \<Rightarrow> Endpoint" where
  "exampleEndpoint targets ttl \<equiv>
     \<lparr>DNSName = ''a.example.com'', Targets = targets, RecordType = ''A'', RecordTTL = ttl\<rparr>"

abbreviation refusingBackend :: Backend where
  "refusingBackend \<equiv> exampleBackend\<lparr>mutationResult := Some ''refused''\<rparr>"

abbreviation foreignEndpoint :: Endpoint where
  "foreignEndpoint \<equiv>
     \<lparr>DNSName = ''x.other.org'', Targets = [''9.9.9.9''], RecordType = ''A'', RecordTTL = 300\<rparr>"

abbreviation exampleChanges :: Changes where
  "exampleChanges \<equiv>
     \<lparr>Create = [exampleEndpoint [''2.2.2.2''] 300],
      UpdateOld = [],
      UpdateNew = [],
      Delete = [foreignEndpoint, exampleEndpoint [''1.1.1.1''] 300]\<rparr>"

section \<open>Notions used to state the properties\<close>

definition backendErrors :: "error list \<Rightarrow> error list" where
  "backendErrors errs = filter (\<lambda>e. case e of ClientError m \<Rightarrow> True | _ \<Rightarrow> False) errs"

definition zoneErrors :: "error list \<Rightarrow> error list" where
  "zoneErrors errs = filter (\<lambda>e. case e of NoMatchingZone ep \<Rightarrow> True | _ \<Rightarrow> False) errs"

definition locatorErrors :: "error list \<Rightarrow> error list" where
  "locatorErrors errs = filter (\<lambda>e. case e of UnresolvedTargets \<Rightarrow> True | _ \<Rightarrow> False) errs"

definition unresolved :: "string list \<Rightarrow> Endpoint list \<Rightarrow> Endpoint list" where
  "unresolved zones eps = filter (\<lambda>ep. snd (getZone zones ep) \<noteq> None) eps"

definition expectedName :: "string \<Rightarrow> string \<Rightarrow> string" where
  "expectedName dnsName zone =
     (if dnsName = zone then []
      else if HasSuffix dnsName (''.'' @ zone) then take (length dnsName - (length zone + 1)) dnsName
      else dnsName)"

definition createCalls :: "string list \<Rightarrow> Endpoint \<Rightarrow> call list" where
  "createCalls zones ep =
     (case getZone zones ep of
        (zone, None) \<Rightarrow>
          map (\<lambda>target. CreateRecord
                 \<lparr>ReqDomain = zone, ReqName = expectedName (DNSName ep) zone,
                  ReqType = RecordType ep, ReqTTL = RecordTTL ep, ReqContent = target\<rparr>)
              (Targets ep)
      | (zone, Some err) \<Rightarrow> [])"


fun isFetch :: "call \<Rightarrow> bool" where
  "isFetch (GetRecords zone) = True"
| "isFetch c = False"

fun isMutation :: "call \<Rightarrow> bool" where
  "isMutation (CreateRecord req) = True"
| "isMutation (UpdateRecord recID req) = True"
| "isMutation (DeleteRecord recID) = True"
| "isMutation c = False"

fun isDelete :: "call \<Rightarrow> bool" where
  "isDelete (DeleteRecord recID) = True"
| "isDelete c = False"

fun isCreate :: "call \<Rightarrow> bool" where
  "isCreate (CreateRecord req) = True"
| "isCreate c = False"

definition fetchCalls :: "event list \<Rightarrow> string list" where
  "fetchCalls t = concat (map (\<lambda>(c, r). case c of GetRecords zone \<Rightarrow> [zone] | _ \<Rightarrow> []) t)"

definition alignCall :: "string \<Rightarrow> Endpoint \<Rightarrow> Endpoint \<Rightarrow> int list \<Rightarrow> nat \<Rightarrow> call" where
  "alignCall zone oldEp newEp recIDs j =
     (if j \<ge> length (Targets newEp) then DeleteRecord (recIDs ! j)
      else if j \<ge> length (Targets oldEp) then
        CreateRecord \<lparr>ReqDomain = zone, ReqName = expectedName (DNSName newEp) zone,
                      ReqType = RecordType newEp, ReqTTL = RecordTTL newEp,
                      ReqContent = Targets newEp ! j\<rparr>
      else
        UpdateRecord (recIDs ! j)
          \<lparr>ReqDomain = zone, ReqName = expectedName (DNSName newEp) zone,
           ReqType = RecordType newEp, ReqTTL = RecordTTL oldEp,
           ReqContent = Targets newEp ! j\<rparr>)"


fun lazyFetches :: "string set \<Rightarrow> event list \<Rightarrow> bool" where
  "lazyFetches seen [] = True"
| "lazyFetches seen ((GetRecords zone, r) # t) =
     (zone \<notin> seen \<and> lazyFetches (if r = None then insert zone seen else seen) t)"
| "lazyFetches seen (ev # t) = lazyFetches seen t"

definition cacheStep :: "recordsCache \<Rightarrow> recordsCache \<Rightarrow> event list \<Rightarrow> bool" where
  "cacheStep cache cache' t \<longleftrightarrow>
     lazyFetches (dom cache) t \<and> dom cache' = dom cache \<union> set (fetched t)"

definition errStep :: "error list \<Rightarrow> event list \<Rightarrow> Endpoint list \<Rightarrow> nat \<Rightarrow> bool" where
  "errStep E t us u \<longleftrightarrow>
     backendErrors E = failures t \<and> zoneErrors E = map NoMatchingZone us
     \<and> length (locatorErrors E) \<le> u
     \<and> length E = length (failures t) + length us + length (locatorErrors E)"

definition resolvedZones :: "string list \<Rightarrow> Endpoint list \<Rightarrow> string list" where
  "resolvedZones zones eps =
     map (\<lambda>ep. fst (getZone zones ep)) (filter (\<lambda>ep. snd (getZone zones ep) = None) eps)"

section \<open>The phases as lists of steps\<close>

text \<open>
  The steps of a run as the specification lists them: the zone resolution of an endpoint,
  the locator on an endpoint, and a backend call with the error it returned. A step has
  failed when the zone did not resolve, the locator did not resolve the targets, or the
  call returned an error.
\<close>

datatype step =
  ZoneStep Endpoint bool
  | LocateStep Endpoint bool
  | CallStep call "client_error option"

fun failedStep :: "step \<Rightarrow> bool" where
  "failedStep (ZoneStep ep resolved) = (\<not> resolved)"
| "failedStep (LocateStep ep located) = (\<not> located)"
| "failedStep (CallStep c r) = (r \<noteq> None)"

definition countFailed :: "step list \<Rightarrow> nat" where
  "countFailed steps = length (filter failedStep steps)"

definition callsOf :: "step list \<Rightarrow> event list" where
  "callsOf steps = concat (map (\<lambda>st. case st of CallStep c r \<Rightarrow> [(c, r)] | _ \<Rightarrow> []) steps)"

definition endpointsOf :: "step list \<Rightarrow> Endpoint list" where
  "endpointsOf steps = concat (map (\<lambda>st. case st of ZoneStep ep resolved \<Rightarrow> [ep] | _ \<Rightarrow> []) steps)"

definition callSteps :: "event list \<Rightarrow> step list" where
  "callSteps evs = map (\<lambda>(c, r). CallStep c r) evs"

text \<open>
  Issuing a list of backend calls: every call of the list is issued, in order, whatever the
  calls before it returned.
\<close>

fun perform :: "'s AbstractClientWrapper \<Rightarrow> call \<Rightarrow> 's \<Rightarrow> client_error option \<times> 's" where
  "perform c Login s = login c s"
| "perform c Logout s = logout c s"
| "perform c (GetRecords zone) s = (case getRecords c zone s of (r, s') \<Rightarrow> (failure r, s'))"
| "perform c GetZones s = (case getZones c s of (r, s') \<Rightarrow> (failure r, s'))"
| "perform c (CreateRecord req) s = createRecord c req s"
| "perform c (UpdateRecord recID req) s = updateRecord c recID req s"
| "perform c (DeleteRecord recID) s = deleteRecord c recID s"

fun performAll :: "'s AbstractClientWrapper \<Rightarrow> call list \<Rightarrow> 's \<Rightarrow> event list \<times> 's" where
  "performAll c [] s = ([], s)"
| "performAll c (call # calls) s =
     (case perform c call s of
        (r, s1) \<Rightarrow> (case performAll c calls s1 of (evs, s2) \<Rightarrow> ((call, r) # evs, s2)))"

text \<open>
  The three phases as section 4.3 of the specification words them, as lists of steps.
  Delete: for each endpoint, resolve the zone; fetch the snapshot unless the phase has
  cached it; run the locator; issue one delete per identifier. Create: for each endpoint,
  resolve the zone and issue one create per target. Update: for each pair, resolve the
  zone of the old endpoint, fetch or reuse the snapshot, run the locator, and issue the
  aligned call of every position. A zone failure, a fetch failure or a locator failure ends
  the steps of that endpoint only, and the next endpoint follows. (What the alignment does
  after a locator failure is not part of this description.)
\<close>

definition snapshot_spec ::
  "'s AbstractClientWrapper \<Rightarrow> recordsCache \<Rightarrow> string \<Rightarrow> 's
     \<Rightarrow> step list \<times> NameserverRecord list option \<times> recordsCache \<times> 's" where
  "snapshot_spec c cache zone s =
     (case cache zone of
        Some recs \<Rightarrow> ([], Some recs, cache, s)
      | None \<Rightarrow>
          (case getRecords c zone s of
             (Inl err, s') \<Rightarrow> ([CallStep (GetRecords zone) (Some err)], None, cache, s')
           | (Inr recs, s') \<Rightarrow> ([CallStep (GetRecords zone) None], Some recs, cache(zone \<mapsto> recs), s')))"

definition deleteEndpoint_spec ::
  "'s AbstractClientWrapper \<Rightarrow> string list \<Rightarrow> Endpoint \<Rightarrow> recordsCache \<times> 's
     \<Rightarrow> step list \<times> recordsCache \<times> 's" where
  "deleteEndpoint_spec c zones ep st =
     (case st of (cache, s) \<Rightarrow>
        (case getZone zones ep of
           (zone, Some err) \<Rightarrow> ([ZoneStep ep False], cache, s)
         | (zone, None) \<Rightarrow>
             (case snapshot_spec c cache zone s of
                (fetch, None, cache', s') \<Rightarrow> (ZoneStep ep True # fetch, cache', s')
              | (fetch, Some recs, cache', s') \<Rightarrow>
                  (case getRecIDs zone recs ep of
                     (recIDs, Some err) \<Rightarrow>
                       (ZoneStep ep True # fetch @ [LocateStep ep False], cache', s')
                   | (recIDs, None) \<Rightarrow>
                       (case performAll c (map DeleteRecord recIDs) s' of
                          (evs, s'') \<Rightarrow>
                            (ZoneStep ep True # fetch @ LocateStep ep True # callSteps evs,
                             cache', s''))))))"

fun deletePhase_spec ::
  "'s AbstractClientWrapper \<Rightarrow> string list \<Rightarrow> Endpoint list \<Rightarrow> recordsCache \<times> 's
     \<Rightarrow> step list \<times> recordsCache \<times> 's" where
  "deletePhase_spec c zones [] (cache, s) = ([], cache, s)"
| "deletePhase_spec c zones (ep # eps) (cache, s) =
     (case deleteEndpoint_spec c zones ep (cache, s) of
        (steps, cache1, s1) \<Rightarrow>
          (case deletePhase_spec c zones eps (cache1, s1) of
             (steps', cache2, s2) \<Rightarrow> (steps @ steps', cache2, s2)))"

definition createEndpoint_spec ::
  "'s AbstractClientWrapper \<Rightarrow> string list \<Rightarrow> Endpoint \<Rightarrow> 's \<Rightarrow> step list \<times> 's" where
  "createEndpoint_spec c zones ep s =
     (case performAll c (createCalls zones ep) s of
        (evs, s') \<Rightarrow> (ZoneStep ep (snd (getZone zones ep) = None) # callSteps evs, s'))"

fun createPhase_spec ::
  "'s AbstractClientWrapper \<Rightarrow> string list \<Rightarrow> Endpoint list \<Rightarrow> 's \<Rightarrow> step list \<times> 's" where
  "createPhase_spec c zones [] s = ([], s)"
| "createPhase_spec c zones (ep # eps) s =
     (case createEndpoint_spec c zones ep s of
        (steps, s1) \<Rightarrow>
          (case createPhase_spec c zones eps s1 of (steps', s2) \<Rightarrow> (steps @ steps', s2)))"

definition updatePair_spec ::
  "'s AbstractClientWrapper \<Rightarrow> string list \<Rightarrow> Endpoint \<times> Endpoint \<Rightarrow> recordsCache \<times> 's
     \<Rightarrow> step list \<times> recordsCache \<times> 's" where
  "updatePair_spec c zones pair st =
     (case (pair, st) of ((oldEp, newEp), (cache, s)) \<Rightarrow>
        (case getZone zones oldEp of
           (zone, Some err) \<Rightarrow> ([ZoneStep oldEp False], cache, s)
         | (zone, None) \<Rightarrow>
             (case snapshot_spec c cache zone s of
                (fetch, None, cache', s') \<Rightarrow> (ZoneStep oldEp True # fetch, cache', s')
              | (fetch, Some recs, cache', s') \<Rightarrow>
                  (case getRecIDs zone recs oldEp of
                     (recIDs, Some err) \<Rightarrow>
                       (ZoneStep oldEp True # fetch @ [LocateStep oldEp False], cache', s')
                   | (recIDs, None) \<Rightarrow>
                       (case performAll c
                               (map (alignCall zone oldEp newEp recIDs)
                                  [0 ..< max (length (Targets oldEp))
                                             (max (length (Targets newEp)) (length recIDs))]) s' of
                          (evs, s'') \<Rightarrow>
                            (ZoneStep oldEp True # fetch @ LocateStep oldEp True # callSteps evs,
                             cache', s''))))))"

fun updatePhase_spec ::
  "'s AbstractClientWrapper \<Rightarrow> string list \<Rightarrow> (Endpoint \<times> Endpoint) list \<Rightarrow> recordsCache \<times> 's
     \<Rightarrow> step list \<times> recordsCache \<times> 's" where
  "updatePhase_spec c zones [] (cache, s) = ([], cache, s)"
| "updatePhase_spec c zones (pair # pairs) (cache, s) =
     (case updatePair_spec c zones pair (cache, s) of
        (steps, cache1, s1) \<Rightarrow>
          (case updatePhase_spec c zones pairs (cache1, s1) of
             (steps', cache2, s2) \<Rightarrow> (steps @ steps', cache2, s2)))"

definition phases_spec ::
  "'s AbstractClientWrapper \<Rightarrow> string list \<Rightarrow> Changes \<Rightarrow> 's \<Rightarrow> step list \<times> 's" where
  "phases_spec c zones changes s =
     (case deletePhase_spec c zones (Delete changes) (Map.empty, s) of
        (deletes, cache1, s1) \<Rightarrow>
          (case createPhase_spec c zones (Create changes) s1 of
             (creates, s2) \<Rightarrow>
               (case updatePhase_spec c zones (zip (UpdateOld changes) (UpdateNew changes))
                       (Map.empty, s2) of
                  (updates, cache3, s3) \<Rightarrow> (deletes @ creates @ updates, s3))))"

text \<open>The errors that the failed steps of a list stand for.\<close>

definition stepErrors :: "step list \<Rightarrow> error list" where
  "stepErrors steps =
     concat (map (\<lambda>st. case st of
                     ZoneStep ep resolved \<Rightarrow> (if resolved then [] else [NoMatchingZone ep])
                   | LocateStep ep located \<Rightarrow> (if located then [] else [UnresolvedTargets])
                   | CallStep c r \<Rightarrow> (case r of Some err \<Rightarrow> [ClientError err] | None \<Rightarrow> []))
                 steps)"

abbreviation growingChanges :: Changes where
  "growingChanges \<equiv>
     \<lparr>Create = [],
      UpdateOld = [exampleEndpoint [''1.1.1.1''] 300],
      UpdateNew = [exampleEndpoint [''1.1.1.1'', ''2.2.2.2''] 600],
      Delete = [foreignEndpoint]\<rparr>"

abbreviation growingSteps :: "step list" where
  "growingSteps \<equiv>
     [ZoneStep foreignEndpoint False,
      ZoneStep (exampleEndpoint [''1.1.1.1''] 300) True,
      CallStep (GetRecords ''example.com'') None,
      LocateStep (exampleEndpoint [''1.1.1.1''] 300) True,
      CallStep (UpdateRecord 7 \<lparr>ReqDomain = ''example.com'', ReqName = ''a'', ReqType = ''A'',
                                 ReqTTL = 300, ReqContent = ''1.1.1.1''\<rparr>) (Some ''refused''),
      CallStep (CreateRecord \<lparr>ReqDomain = ''example.com'', ReqName = ''a'', ReqType = ''A'',
                               ReqTTL = 600, ReqContent = ''2.2.2.2''\<rparr>) (Some ''refused'')]"

section \<open>Properties of the string functions\<close>

lemma HasSuffix_iff_suffix: "HasSuffix s suf \<longleftrightarrow> suffix suf s"
proof
  assume "HasSuffix s suf"
  then have "s = take (length s - length suf) s @ suf"
    by (metis HasSuffix_def append_take_drop_id)
  then show "suffix suf s"
    by (metis suffixI)
next
  assume "suffix suf s"
  then obtain p where "s = p @ suf"
    by (auto simp: suffix_def)
  then show "HasSuffix s suf"
    by (simp add: HasSuffix_def)
qed

lemma TrimSuffix_append: "TrimSuffix (p @ suf) suf = p"
  by (simp add: TrimSuffix_def HasSuffix_def)

section \<open>Properties of the zone resolver\<close>

lemma getZone_loop_inv:
  assumes "getZone_loop dns zones (m, e) = (m', e')"
    and "\<forall>z\<in>S. HasSuffix dns z \<longrightarrow> length z \<le> length m"
    and "e = None \<longrightarrow> m \<in> S \<and> HasSuffix dns m \<and> m \<noteq> []"
    and "e \<noteq> None \<longrightarrow> m = [] \<and> e = Some E"
  shows "(\<forall>z\<in>S \<union> set zones. HasSuffix dns z \<longrightarrow> length z \<le> length m')
       \<and> (e' = None \<longrightarrow> m' \<in> S \<union> set zones \<and> HasSuffix dns m' \<and> m' \<noteq> [])
       \<and> (e' \<noteq> None \<longrightarrow> m' = [] \<and> e' = Some E)"
  using assms
proof (induction zones arbitrary: m e S)
  case Nil
  then show ?case by simp
next
  case (Cons zone zones)
  show ?case
  proof (cases "HasSuffix dns zone \<and> length zone > length m")
    case True
    then have run: "getZone_loop dns zones (zone, None) = (m', e')"
      using Cons.prems(1) by simp
    have bound: "\<forall>z\<in>insert zone S. HasSuffix dns z \<longrightarrow> length z \<le> length zone"
      using Cons.prems(2) True by fastforce
    have sel: "(None :: error option) = None \<longrightarrow> zone \<in> insert zone S \<and> HasSuffix dns zone \<and> zone \<noteq> []"
      using True by auto
    have "(\<forall>z\<in>insert zone S \<union> set zones. HasSuffix dns z \<longrightarrow> length z \<le> length m')
       \<and> (e' = None \<longrightarrow> m' \<in> insert zone S \<union> set zones \<and> HasSuffix dns m' \<and> m' \<noteq> [])
       \<and> (e' \<noteq> None \<longrightarrow> m' = [] \<and> e' = Some E)"
      by (rule Cons.IH [OF run bound sel]) simp
    then show ?thesis by simp
  next
    case False
    then have run: "getZone_loop dns zones (m, e) = (m', e')"
      using Cons.prems(1) by auto
    have bound: "\<forall>z\<in>insert zone S. HasSuffix dns z \<longrightarrow> length z \<le> length m"
      using Cons.prems(2) False by auto
    have sel: "e = None \<longrightarrow> m \<in> insert zone S \<and> HasSuffix dns m \<and> m \<noteq> []"
      using Cons.prems(3) by auto
    have "(\<forall>z\<in>insert zone S \<union> set zones. HasSuffix dns z \<longrightarrow> length z \<le> length m')
       \<and> (e' = None \<longrightarrow> m' \<in> insert zone S \<union> set zones \<and> HasSuffix dns m' \<and> m' \<noteq> [])
       \<and> (e' \<noteq> None \<longrightarrow> m' = [] \<and> e' = Some E)"
      by (rule Cons.IH [OF run bound sel]) (rule Cons.prems(4))
    then show ?thesis by simp
  qed
qed

lemma getZone_cases:
  assumes "getZone zones ep = (z, e)"
  shows "(\<forall>z'\<in>set zones. HasSuffix (DNSName ep) z' \<longrightarrow> length z' \<le> length z)
       \<and> (e = None \<longrightarrow> z \<in> set zones \<and> HasSuffix (DNSName ep) z \<and> z \<noteq> [])
       \<and> (e \<noteq> None \<longrightarrow> z = [] \<and> e = Some (NoMatchingZone ep))"
  using getZone_loop_inv [of "DNSName ep" zones "[]" "Some (NoMatchingZone ep)" z e "{}" "NoMatchingZone ep"] assms
  by (simp add: getZone_def)

text \<open>
  C2, as the code has it. \<open>getZone\<close> returns the element of the zone list that is a
  suffix of the endpoint's DNS name and is at least as long as every other suffix match;
  it returns the "no matching zone" error exactly when no non-empty zone name is a suffix
  of the DNS name (the empty zone name is a suffix of every name and is never selected).
\<close>

theorem getZone_longest_suffix:
  "(case getZone zones ep of
      (z, None) \<Rightarrow>
        z \<in> set zones \<and> HasSuffix (DNSName ep) z
        \<and> (\<forall>z'\<in>set zones. HasSuffix (DNSName ep) z' \<longrightarrow> length z' \<le> length z)
    | (z, Some e) \<Rightarrow> z = [] \<and> e = NoMatchingZone ep)
   \<and> (snd (getZone zones ep) \<noteq> None
        \<longleftrightarrow> \<not> (\<exists>z'\<in>set zones. z' \<noteq> [] \<and> HasSuffix (DNSName ep) z'))"
proof -
  obtain z e where run: "getZone zones ep = (z, e)"
    by (cases "getZone zones ep")
  note facts = getZone_cases [OF run]
  have first: "(case getZone zones ep of
      (z, None) \<Rightarrow>
        z \<in> set zones \<and> HasSuffix (DNSName ep) z
        \<and> (\<forall>z'\<in>set zones. HasSuffix (DNSName ep) z' \<longrightarrow> length z' \<le> length z)
    | (z, Some e) \<Rightarrow> z = [] \<and> e = NoMatchingZone ep)"
    using facts by (cases e) (simp_all add: run)
  have second: "snd (getZone zones ep) \<noteq> None
        \<longleftrightarrow> \<not> (\<exists>z'\<in>set zones. z' \<noteq> [] \<and> HasSuffix (DNSName ep) z')"
  proof (cases e)
    case None
    then show ?thesis using facts run by auto
  next
    case (Some a)
    then have "z = []" using facts by simp
    then have "\<forall>z'\<in>set zones. HasSuffix (DNSName ep) z' \<longrightarrow> z' = []"
      using facts by auto
    then show ?thesis using Some run by auto
  qed
  show ?thesis using first second by blast
qed

theorem getZone_longest_suffix_witness:
  "getZone [''example.com'', ''sub.example.com'']
     \<lparr>DNSName = ''a.sub.example.com'', Targets = [''1.2.3.4''], RecordType = ''A'', RecordTTL = 300\<rparr>
     = (''sub.example.com'', None)
   \<and> HasSuffix ''a.sub.example.com'' ''example.com''
   \<and> length ''example.com'' \<le> length ''sub.example.com''"
  using getZone_longest_suffix [of "[''example.com'', ''sub.example.com'']"
      "\<lparr>DNSName = ''a.sub.example.com'', Targets = [''1.2.3.4''], RecordType = ''A'', RecordTTL = 300\<rparr>"]
  by (simp add: getZone_def HasSuffix_def)

text \<open>
  The claim as the specification states it fails for a zone list that holds the empty
  zone name: the empty name is a suffix of the DNS name, and \<open>getZone\<close> still returns
  the error.
\<close>

theorem getZone_empty_zone_counterexample:
  "[] \<in> set [[] :: string]
   \<and> HasSuffix ''a.com'' []
   \<and> getZone [[]] \<lparr>DNSName = ''a.com'', Targets = [''1.2.3.4''], RecordType = ''A'', RecordTTL = 300\<rparr>
       = ([], Some (NoMatchingZone
           \<lparr>DNSName = ''a.com'', Targets = [''1.2.3.4''], RecordType = ''A'', RecordTTL = 300\<rparr>))"
  by (simp add: getZone_def HasSuffix_def)

section \<open>Properties of the record locator\<close>

lemma getRecIDs_scan_eq:
  "getRecIDs_scan zone ep target records recIDs
     = recIDs @ map ID (filter (recordMatches zone ep target) records)"
proof (induction records arbitrary: recIDs)
  case Nil
  then show ?case by simp
next
  case (Cons r rs)
  show ?case
    by (auto simp: Cons.IH recordMatches_def fqdn_def Let_def)
qed

lemma getRecIDs_targets_eq:
  "getRecIDs_targets zone records ep targets recIDs
     = recIDs @ concat (map (\<lambda>target. map ID (filter (recordMatches zone ep target) records)) targets)"
  by (induction targets arbitrary: recIDs) (simp_all add: getRecIDs_scan_eq)

text \<open>
  C3. \<open>getRecIDs\<close> collects, target by target and in scan order, the identifiers of the
  records whose type, content and derived fully-qualified name match, returns that
  sequence when its length is the number of targets, and otherwise returns the
  "unresolved targets" error with no identifier.
\<close>

theorem getRecIDs_refines_spec:
  "getRecIDs zone records ep = getRecIDs_spec zone records ep"
  by (simp add: getRecIDs_def getRecIDs_spec_def matchingIDs_def getRecIDs_targets_eq Let_def)

lemma length_matchingIDs:
  "length (matchingIDs zone records ep)
     = sum_list (map (\<lambda>target. length (filter (recordMatches zone ep target) records)) (Targets ep))"
  by (simp add: matchingIDs_def length_concat comp_def)

lemma sum_list_below_length:
  fixes f :: "'a \<Rightarrow> nat"
  assumes "\<forall>x\<in>set xs. f x \<le> 1"
  shows "sum_list (map f xs) \<le> length xs"
  using assms by (induction xs) (auto simp: add_mono)

lemma sum_list_less_length:
  fixes f :: "'a \<Rightarrow> nat"
  assumes "\<forall>x\<in>set xs. f x \<le> 1" and "t \<in> set xs" and "f t = 0"
  shows "sum_list (map f xs) < length xs"
  using assms
proof (induction xs)
  case Nil
  then show ?case by simp
next
  case (Cons x xs)
  have rest: "sum_list (map f xs) \<le> length xs"
    using Cons.prems(1) by (simp add: sum_list_below_length)
  show ?case
  proof (cases "t = x")
    case True
    then show ?thesis using rest Cons.prems(3) by simp
  next
    case False
    then have "sum_list (map f xs) < length xs"
      using Cons by simp
    moreover have "f x \<le> 1" using Cons.prems(1) by simp
    ultimately show ?thesis by simp
  qed
qed

text \<open>
  C4, as the code has it. When a target of the endpoint has no matching record and no
  target matches more than one record of the snapshot, \<open>getRecIDs\<close> fails with the
  "unresolved targets" error and returns no identifier.
\<close>

theorem getRecIDs_missing_target_fails:
  assumes "target \<in> set (Targets ep)"
    and "filter (recordMatches zone ep target) records = []"
    and "\<forall>t\<in>set (Targets ep). length (filter (recordMatches zone ep t) records) \<le> 1"
  shows "getRecIDs zone records ep = ([], Some UnresolvedTargets)"
proof -
  have "length (matchingIDs zone records ep) < length (Targets ep)"
    unfolding length_matchingIDs
    by (rule sum_list_less_length [OF assms(3) assms(1)]) (simp add: assms(2))
  then show ?thesis
    by (simp add: getRecIDs_def getRecIDs_targets_eq matchingIDs_def Let_def)
qed

theorem getRecIDs_missing_target_fails_witness:
  "''2.2.2.2'' \<in> set [''1.1.1.1'', ''2.2.2.2'']
   \<and> getRecIDs ''example.com''
        [\<lparr>ID = 1, Name = ''a'', Type = ''A'', Content = ''1.1.1.1'', TTL = 300, Priority = 0\<rparr>]
        \<lparr>DNSName = ''a.example.com'', Targets = [''1.1.1.1'', ''2.2.2.2''], RecordType = ''A'',
          RecordTTL = 300\<rparr>
       = ([], Some UnresolvedTargets)"
  using getRecIDs_missing_target_fails [of "''2.2.2.2''"
      "\<lparr>DNSName = ''a.example.com'', Targets = [''1.1.1.1'', ''2.2.2.2''], RecordType = ''A'',
        RecordTTL = 300\<rparr>"
      "''example.com''"
      "[\<lparr>ID = 1, Name = ''a'', Type = ''A'', Content = ''1.1.1.1'', TTL = 300, Priority = 0\<rparr>]"]
  by (simp add: recordMatches_def fqdn_def)

text \<open>
  The claim as the specification states it fails when the snapshot holds a duplicate:
  the target \<open>2.2.2.2\<close> has no matching record, the two records of \<open>1.1.1.1\<close> make the
  count come out right, and \<open>getRecIDs\<close> succeeds.
\<close>

theorem getRecIDs_duplicate_masks_counterexample:
  "filter (recordMatches ''example.com''
       \<lparr>DNSName = ''a.example.com'', Targets = [''1.1.1.1'', ''2.2.2.2''], RecordType = ''A'',
         RecordTTL = 300\<rparr> ''2.2.2.2'')
     [\<lparr>ID = 1, Name = ''a'', Type = ''A'', Content = ''1.1.1.1'', TTL = 300, Priority = 0\<rparr>,
      \<lparr>ID = 2, Name = ''a'', Type = ''A'', Content = ''1.1.1.1'', TTL = 300, Priority = 0\<rparr>] = []
   \<and> getRecIDs ''example.com''
        [\<lparr>ID = 1, Name = ''a'', Type = ''A'', Content = ''1.1.1.1'', TTL = 300, Priority = 0\<rparr>,
         \<lparr>ID = 2, Name = ''a'', Type = ''A'', Content = ''1.1.1.1'', TTL = 300, Priority = 0\<rparr>]
        \<lparr>DNSName = ''a.example.com'', Targets = [''1.1.1.1'', ''2.2.2.2''], RecordType = ''A'',
          RecordTTL = 300\<rparr>
       = ([1, 2], None)"
  by (simp add: getRecIDs_def recordMatches_def fqdn_def)

section \<open>Properties of the phases\<close>

lemma traced_sel [simp]:
  "login (traced c) (s, t) = (case login c s of (r, s') \<Rightarrow> (r, (s', t @ [(Login, r)])))"
  "logout (traced c) (s, t) = (case logout c s of (r, s') \<Rightarrow> (r, (s', t @ [(Logout, r)])))"
  "getRecords (traced c) zone (s, t) =
     (case getRecords c zone s of (r, s') \<Rightarrow> (r, (s', t @ [(GetRecords zone, failure r)])))"
  "getZones (traced c) (s, t) =
     (case getZones c s of (r, s') \<Rightarrow> (r, (s', t @ [(GetZones, failure r)])))"
  "createRecord (traced c) req (s, t) =
     (case createRecord c req s of (r, s') \<Rightarrow> (r, (s', t @ [(CreateRecord req, r)])))"
  "updateRecord (traced c) recID req (s, t) =
     (case updateRecord c recID req s of (r, s') \<Rightarrow> (r, (s', t @ [(UpdateRecord recID req, r)])))"
  "deleteRecord (traced c) recID (s, t) =
     (case deleteRecord c recID s of (r, s') \<Rightarrow> (r, (s', t @ [(DeleteRecord recID, r)])))"
  by (simp_all add: traced_def)

lemma failures_simps [simp]:
  "failures [] = []"
  "failures ((c, None) # t) = failures t"
  "failures ((c, Some err) # t) = ClientError err # failures t"
  by (simp_all add: failures_def)

lemma failures_append [simp]: "failures (t @ t') = failures t @ failures t'"
  by (simp add: failures_def)

lemma backendErrors_simps [simp]:
  "backendErrors [] = []"
  "backendErrors (ClientError m # errs) = ClientError m # backendErrors errs"
  "backendErrors (NoMatchingZone ep # errs) = backendErrors errs"
  "backendErrors (UnresolvedTargets # errs) = backendErrors errs"
  "backendErrors (errs @ errs') = backendErrors errs @ backendErrors errs'"
  by (simp_all add: backendErrors_def)

lemma backendErrors_failures [simp]: "backendErrors (failures t) = failures t"
  by (induction t) (auto simp: failures_def backendErrors_def split: option.splits)

lemma zoneErrors_simps [simp]:
  "zoneErrors [] = []"
  "zoneErrors (ClientError m # errs) = zoneErrors errs"
  "zoneErrors (NoMatchingZone ep # errs) = NoMatchingZone ep # zoneErrors errs"
  "zoneErrors (UnresolvedTargets # errs) = zoneErrors errs"
  "zoneErrors (errs @ errs') = zoneErrors errs @ zoneErrors errs'"
  by (simp_all add: zoneErrors_def)

lemma zoneErrors_failures [simp]: "zoneErrors (failures t) = []"
  by (induction t) (auto simp: failures_def zoneErrors_def split: option.splits)

lemma locatorErrors_simps [simp]:
  "locatorErrors [] = []"
  "locatorErrors (ClientError m # errs) = locatorErrors errs"
  "locatorErrors (NoMatchingZone ep # errs) = locatorErrors errs"
  "locatorErrors (UnresolvedTargets # errs) = UnresolvedTargets # locatorErrors errs"
  "locatorErrors (errs @ errs') = locatorErrors errs @ locatorErrors errs'"
  by (simp_all add: locatorErrors_def)

lemma locatorErrors_failures [simp]: "locatorErrors (failures t) = []"
  by (induction t) (auto simp: failures_def locatorErrors_def split: option.splits)

lemma relativeName_expected: "relativeName dnsName zone = expectedName dnsName zone"
  by (simp add: relativeName_def expectedName_def TrimSuffix_def)

lemma createTargets_run:
  "\<exists>T s'. createTargets (traced c) zone ep targets (errs, (s, t)) = (errs @ failures T, (s', t @ T))
     \<and> map fst T = map (\<lambda>target. CreateRecord
          \<lparr>ReqDomain = zone, ReqName = expectedName (DNSName ep) zone,
           ReqType = RecordType ep, ReqTTL = RecordTTL ep, ReqContent = target\<rparr>) targets"
proof (induction targets arbitrary: errs s t)
  case Nil
  show ?case by (rule exI [of _ "[]"]) simp
next
  case (Cons target targets)
  let ?req = "\<lparr>ReqDomain = zone, ReqName = expectedName (DNSName ep) zone,
           ReqType = RecordType ep, ReqTTL = RecordTTL ep, ReqContent = target\<rparr>"
  obtain r s1 where call: "createRecord c ?req s = (r, s1)"
    by (cases "createRecord c ?req s")
  let ?ev = "(CreateRecord ?req, r)"
  let ?errs1 = "errs @ failures [?ev]"
  obtain T s' where rest:
    "createTargets (traced c) zone ep targets (?errs1, (s1, t @ [?ev])) = (?errs1 @ failures T, (s', (t @ [?ev]) @ T))"
    "map fst T = map (\<lambda>target. CreateRecord
          \<lparr>ReqDomain = zone, ReqName = expectedName (DNSName ep) zone,
           ReqType = RecordType ep, ReqTTL = RecordTTL ep, ReqContent = target\<rparr>) targets"
    using Cons.IH [of ?errs1 s1 "t @ [?ev]"] by blast
  have "createTargets (traced c) zone ep (target # targets) (errs, (s, t))
      = (errs @ failures (?ev # T), (s', t @ ?ev # T))"
    using rest(1) call by (cases r) (simp_all add: relativeName_expected)
  then show ?case using rest(2) by (intro exI [of _ "?ev # T"] exI [of _ s']) simp
qed

lemma unresolved_simps [simp]:
  "unresolved zones [] = []"
  "unresolved zones (eps @ eps') = unresolved zones eps @ unresolved zones eps'"
  by (simp_all add: unresolved_def)

lemma unresolved_Cons: "unresolved zones (ep # eps) = unresolved zones [ep] @ unresolved zones eps"
  by (simp add: unresolved_def)

lemma errStep_append:
  "errStep E t us u \<Longrightarrow> errStep E' t' us' u' \<Longrightarrow> errStep (E @ E') (t @ t') (us @ us') (u + u')"
  by (simp add: errStep_def)

lemma createEndpoint_run:
  "\<exists>T E s'. createEndpoint (traced c) zones ep (errs, (s, t)) = (errs @ E, (s', t @ T))
     \<and> map fst T = createCalls zones ep
     \<and> errStep E T (unresolved zones [ep]) 0"
proof -
  obtain zone e where z: "getZone zones ep = (zone, e)"
    by (cases "getZone zones ep")
  show ?thesis
  proof (cases e)
    case None
    obtain T s' where run:
      "createTargets (traced c) zone ep (Targets ep) (errs, (s, t)) = (errs @ failures T, (s', t @ T))"
      "map fst T = map (\<lambda>target. CreateRecord
          \<lparr>ReqDomain = zone, ReqName = expectedName (DNSName ep) zone,
           ReqType = RecordType ep, ReqTTL = RecordTTL ep, ReqContent = target\<rparr>) (Targets ep)"
      using createTargets_run [of c zone ep "Targets ep" errs s t] by blast
    show ?thesis
      using run z None
      by (intro exI [of _ T] exI [of _ "failures T"] exI [of _ s'])
         (simp add: createCalls_def unresolved_def errStep_def)
  next
    case (Some err)
    then have "err = NoMatchingZone ep"
      using getZone_cases [OF z] by simp
    then show ?thesis
      using z Some
      by (intro exI [of _ "[]"] exI [of _ "[NoMatchingZone ep]"] exI [of _ s])
         (simp add: createCalls_def unresolved_def errStep_def)
  qed
qed

lemma createPhase_run:
  "\<exists>T E s'. createPhase (traced c) zones eps (errs, (s, t)) = (errs @ E, (s', t @ T))
     \<and> map fst T = concat (map (createCalls zones) eps)
     \<and> errStep E T (unresolved zones eps) 0"
proof (induction eps arbitrary: errs s t)
  case Nil
  show ?case by (intro exI [of _ "[]"]) (simp add: errStep_def)
next
  case (Cons ep eps)
  obtain T1 E1 s1 where first:
    "createEndpoint (traced c) zones ep (errs, (s, t)) = (errs @ E1, (s1, t @ T1))"
    "map fst T1 = createCalls zones ep"
    "errStep E1 T1 (unresolved zones [ep]) 0"
    using createEndpoint_run [of c zones ep errs s t] by blast
  obtain T2 E2 s2 where rest:
    "createPhase (traced c) zones eps (errs @ E1, (s1, t @ T1)) = ((errs @ E1) @ E2, (s2, (t @ T1) @ T2))"
    "map fst T2 = concat (map (createCalls zones) eps)"
    "errStep E2 T2 (unresolved zones eps) 0"
    using Cons.IH [of "errs @ E1" s1 "t @ T1"] by blast
  have run: "createPhase (traced c) zones (ep # eps) (errs, (s, t)) = (errs @ (E1 @ E2), (s2, t @ (T1 @ T2)))"
    using first(1) rest(1) by simp
  have acc: "errStep (E1 @ E2) (T1 @ T2) (unresolved zones (ep # eps)) 0"
    using errStep_append [OF first(3) rest(3)] by (simp add: unresolved_Cons [of zones ep eps])
  show ?case
    using run first(2) rest(2) acc
    by (intro exI [of _ "T1 @ T2"] exI [of _ "E1 @ E2"] exI [of _ s2]) simp
qed

lemma creates_kind:
  assumes "map fst T = concat (map (createCalls zones) eps)"
  shows "list_all (\<lambda>ev. isCreate (fst ev)) T \<and> fetchCalls T = []"
proof -
  have "list_all isCreate (createCalls zones ep)" for ep
    by (cases "getZone zones ep") (auto simp: createCalls_def list_all_iff split: option.splits)
  then have "list_all isCreate (concat (map (createCalls zones) eps))"
    by (induction eps) simp_all
  then have "list_all isCreate (map fst T)"
    using assms by simp
  then have all: "list_all (\<lambda>ev. isCreate (fst ev)) T"
    by (simp add: list_all_iff)
  have "fetchCalls T' = []" if "list_all (\<lambda>ev. isCreate (fst ev)) T'" for T'
    using that
  proof (induction T')
    case Nil
    show ?case by (simp add: fetchCalls_def)
  next
    case (Cons ev T')
    obtain c r where ev: "ev = (c, r)" by (cases ev)
    show ?case using Cons by (cases c) (simp_all add: ev fetchCalls_def)
  qed
  then show ?thesis using all by simp
qed

text \<open>
  C9. Whatever the backend answers, the create phase issues, endpoint by endpoint and for
  each endpoint whose zone resolves, one create call per target in target order; the
  request carries the zone, the endpoint's type and TTL, the target as content, and the
  relative name: empty when the DNS name is the zone name, otherwise the DNS name without
  the suffix made of a dot and the zone name (the whole DNS name when it has no such
  suffix). Every failed create is recorded, as is every endpoint without a zone, and
  nothing else: no failure stops the remaining targets or endpoints.
\<close>

theorem createPhase_issues_creates:
  "\<exists>T E s'. createPhase (traced c) zones eps (errs, (s, t)) = (errs @ E, (s', t @ T))
     \<and> map fst T = concat (map (createCalls zones) eps)
     \<and> backendErrors E = failures T
     \<and> zoneErrors E = map NoMatchingZone (unresolved zones eps)
     \<and> length E = length (failures T) + length (unresolved zones eps)"
  using createPhase_run [of c zones eps errs s t] unfolding errStep_def
  by (elim exE conjE) (intro exI conjI, assumption+, simp)

lemma fetchCalls_simps [simp]:
  "fetchCalls [] = []"
  "fetchCalls ((GetRecords zone, r) # t) = zone # fetchCalls t"
  "fetchCalls ((CreateRecord req, r) # t) = fetchCalls t"
  "fetchCalls ((UpdateRecord recID req, r) # t) = fetchCalls t"
  "fetchCalls ((DeleteRecord recID, r) # t) = fetchCalls t"
  "fetchCalls ((Login, r) # t) = fetchCalls t"
  "fetchCalls ((Logout, r) # t) = fetchCalls t"
  "fetchCalls ((GetZones, r) # t) = fetchCalls t"
  by (simp_all add: fetchCalls_def)

lemma fetchCalls_append [simp]: "fetchCalls (t @ t') = fetchCalls t @ fetchCalls t'"
  by (simp add: fetchCalls_def)

lemma alignTargets_run:
  "\<exists>T r s'. alignTargets (traced c) zone name oldEp newEp recIDs js (errs, (s, t)) = (r, (s', t @ T))
     \<and> fetchCalls T = [] \<and> list_all (\<lambda>ev. isMutation (fst ev)) T
     \<and> (case r of Inl p \<Rightarrow> True | Inr errs' \<Rightarrow> errs' = errs @ failures T)"
proof (induction js arbitrary: errs s t)
  case Nil
  show ?case by (intro exI [of _ "[]"]) simp
next
  case (Cons j js)
  let ?P = "\<lambda>errs s t T r s'.
     alignTargets (traced c) zone name oldEp newEp recIDs js (errs, (s, t)) = (r, (s', t @ T))
     \<and> fetchCalls T = [] \<and> list_all (\<lambda>ev. isMutation (fst ev)) T
     \<and> (case r of Inl p \<Rightarrow> True | Inr errs' \<Rightarrow> errs' = errs @ failures T)"
  have step: "\<exists>T r s'. alignTargets (traced c) zone name oldEp newEp recIDs (j # js) (errs, (s, t)) = (r, (s', t @ T))
     \<and> fetchCalls T = [] \<and> list_all (\<lambda>ev. isMutation (fst ev)) T
     \<and> (case r of Inl p \<Rightarrow> True | Inr errs' \<Rightarrow> errs' = errs @ failures T)"
    if go: "alignTargets (traced c) zone name oldEp newEp recIDs (j # js) (errs, (s, t))
            = alignTargets (traced c) zone name oldEp newEp recIDs js (errs @ failures [ev], (s1, t @ [ev]))"
      and ev: "isMutation (fst ev)" "fetchCalls [ev] = []"
    for ev s1
  proof -
    obtain T r s' where rest: "?P (errs @ failures [ev]) s1 (t @ [ev]) T r s'"
      using Cons.IH [of "errs @ failures [ev]" s1 "t @ [ev]"] by blast
    have "alignTargets (traced c) zone name oldEp newEp recIDs (j # js) (errs, (s, t)) = (r, (s', t @ ev # T))"
      using go rest by simp
    moreover have "fetchCalls (ev # T) = []"
      using ev(2) rest fetchCalls_append [of "[ev]" T] by simp
    moreover have "list_all (\<lambda>ev. isMutation (fst ev)) (ev # T)"
      using ev(1) rest by simp
    moreover have "(case r of Inl p \<Rightarrow> True | Inr errs' \<Rightarrow> errs' = errs @ failures (ev # T))"
      using rest failures_append [of "[ev]" T] by (cases r) simp_all
    ultimately show ?thesis by blast
  qed
  have stop: "\<exists>T r s'. alignTargets (traced c) zone name oldEp newEp recIDs (j # js) (errs, (s, t)) = (r, (s', t @ T))
     \<and> fetchCalls T = [] \<and> list_all (\<lambda>ev. isMutation (fst ev)) T
     \<and> (case r of Inl p \<Rightarrow> True | Inr errs' \<Rightarrow> errs' = errs @ failures T)"
    if "alignTargets (traced c) zone name oldEp newEp recIDs (j # js) (errs, (s, t)) = (Inl p, (s1, t @ T0))"
      and "fetchCalls T0 = []" "list_all (\<lambda>ev. isMutation (fst ev)) T0"
    for p s1 T0
    using that by (intro exI [of _ T0] exI [of _ "Inl p"] exI [of _ s1]) simp
  consider (del) "j \<ge> length (Targets newEp)"
    | (cre) "j < length (Targets newEp)" "j \<ge> length (Targets oldEp)"
    | (upd) "j < length (Targets newEp)" "j < length (Targets oldEp)"
    by linarith
  then show ?case
  proof cases
    case del
    show ?thesis
    proof (cases "j < length recIDs")
      case False
      show ?thesis
        by (rule stop [of "IndexOutOfRange j (length recIDs)" s "[]"]) (use del False in simp_all)
    next
      case True
      obtain r0 s1 where call: "deleteRecord c (recIDs ! j) s = (r0, s1)"
        by (cases "deleteRecord c (recIDs ! j) s")
      let ?ev = "(DeleteRecord (recIDs ! j), r0)"
      show ?thesis
      proof (cases "r0 \<noteq> None \<and> \<not> j < length (Targets oldEp)")
        case True
        show ?thesis
          by (rule stop [of "IndexOutOfRange j (length (Targets oldEp))" s1 "[?ev]"])
             (use del \<open>j < length recIDs\<close> call True in auto)
      next
        case False
        show ?thesis
          by (rule step [of ?ev s1]) (use del \<open>j < length recIDs\<close> call False in \<open>cases r0; simp\<close>, simp_all)
      qed
    qed
  next
    case cre
    let ?req = "\<lparr>ReqDomain = zone, ReqName = name, ReqType = RecordType newEp,
                 ReqTTL = RecordTTL newEp, ReqContent = Targets newEp ! j\<rparr>"
    obtain r0 s1 where call: "createRecord c ?req s = (r0, s1)"
      by (cases "createRecord c ?req s")
    show ?thesis
      by (rule step [of "(CreateRecord ?req, r0)" s1]) (use cre call in \<open>cases r0; simp\<close>, simp_all)
  next
    case upd
    let ?req = "\<lparr>ReqDomain = zone, ReqName = name, ReqType = RecordType newEp,
                 ReqTTL = RecordTTL oldEp, ReqContent = Targets newEp ! j\<rparr>"
    show ?thesis
    proof (cases "j < length recIDs")
      case False
      show ?thesis
        by (rule stop [of "IndexOutOfRange j (length recIDs)" s "[]"]) (use upd False in simp_all)
    next
      case True
      obtain r0 s1 where call: "updateRecord c (recIDs ! j) ?req s = (r0, s1)"
        by (cases "updateRecord c (recIDs ! j) ?req s")
      show ?thesis
        by (rule step [of "(UpdateRecord (recIDs ! j) ?req, r0)" s1])
           (use upd True call in \<open>cases r0; simp\<close>, simp_all)
    qed
  qed
qed


lemma fetched_simps [simp]:
  "fetched [] = []"
  "fetched ((GetRecords zone, None) # t) = zone # fetched t"
  "fetched ((GetRecords zone, Some err) # t) = fetched t"
  "fetched ((CreateRecord req, r) # t) = fetched t"
  "fetched ((UpdateRecord recID req, r) # t) = fetched t"
  "fetched ((DeleteRecord recID, r) # t) = fetched t"
  "fetched ((Login, r) # t) = fetched t"
  "fetched ((Logout, r) # t) = fetched t"
  "fetched ((GetZones, r) # t) = fetched t"
  "fetched (t @ t') = fetched t @ fetched t'"
  by (simp_all add: fetched_def)

lemma fetched_subset_fetchCalls: "set (fetched t) \<subseteq> set (fetchCalls t)"
proof (induction t)
  case Nil
  show ?case by simp
next
  case (Cons ev t)
  obtain c r where ev: "ev = (c, r)" by (cases ev)
  show ?case using Cons by (cases c; cases r) (auto simp: ev fetched_def fetchCalls_def)
qed

lemma fetched_no_fetchCalls: "fetchCalls t = [] \<Longrightarrow> fetched t = []"
  using fetched_subset_fetchCalls [of t] by simp

lemma lazyFetches_no_fetchCalls: "fetchCalls t = [] \<Longrightarrow> lazyFetches seen t"
proof (induction t)
  case Nil
  show ?case by simp
next
  case (Cons ev t)
  obtain c r where ev: "ev = (c, r)" by (cases ev)
  show ?case using Cons by (cases c) (auto simp: ev fetchCalls_def)
qed

lemma lazyFetches_append:
  "lazyFetches seen (t @ t') \<longleftrightarrow> lazyFetches seen t \<and> lazyFetches (seen \<union> set (fetched t)) t'"
proof (induction t arbitrary: seen)
  case Nil
  show ?case by simp
next
  case (Cons ev t)
  obtain c r where ev: "ev = (c, r)" by (cases ev)
  show ?case
  proof (cases c)
    case (GetRecords zone)
    show ?thesis
      by (cases r) (auto simp: ev GetRecords Cons.IH)
  qed (simp_all add: ev Cons.IH)
qed

lemma lazyFetches_distinct: "lazyFetches seen t \<Longrightarrow> distinct (fetched t) \<and> set (fetched t) \<inter> seen = {}"
proof (induction t arbitrary: seen)
  case Nil
  show ?case by simp
next
  case (Cons ev t)
  obtain c r where ev: "ev = (c, r)" by (cases ev)
  show ?case
  proof (cases c)
    case (GetRecords zone)
    show ?thesis
    proof (cases r)
      case None
      then have "lazyFetches (insert zone seen) t" "zone \<notin> seen"
        using Cons.prems by (simp_all add: ev GetRecords)
      then show ?thesis using Cons.IH [of "insert zone seen"]
        by (auto simp: ev GetRecords None)
    next
      case (Some err)
      then have "lazyFetches seen t"
        using Cons.prems by (simp add: ev GetRecords)
      then show ?thesis using Cons.IH [of seen]
        by (simp add: ev GetRecords Some)
    qed
  qed (use Cons in \<open>simp_all add: ev\<close>)
qed

lemma cacheStep_refl: "fetchCalls t = [] \<Longrightarrow> cacheStep cache cache t"
  by (simp add: cacheStep_def lazyFetches_no_fetchCalls fetched_no_fetchCalls)

lemma cacheStep_append:
  "cacheStep cache cache1 t \<Longrightarrow> cacheStep cache1 cache2 t' \<Longrightarrow> cacheStep cache cache2 (t @ t')"
  by (auto simp: cacheStep_def lazyFetches_append)

lemma errStep_failures: "errStep (failures t) t [] 0"
  by (simp add: errStep_def)

lemma cachedRecords_run:
  "\<exists>T r cache' s'. cachedRecords (traced c) cache zone (s, t) = (r, cache', (s', t @ T))
     \<and> cacheStep cache cache' T
     \<and> set (fetchCalls T) \<subseteq> {zone}
     \<and> list_all (\<lambda>ev. isFetch (fst ev)) T
     \<and> (case r of Inl err \<Rightarrow> failures T = [ClientError err] | Inr recs \<Rightarrow> failures T = [])
     \<and> (cache zone = None \<longrightarrow> (\<exists>r0. T = [(GetRecords zone, r0)]))"
proof (cases "cache zone")
  case (Some recs)
  show ?thesis
    by (intro exI [of _ "[]"] exI [of _ "Inr recs"] exI [of _ cache] exI [of _ s])
       (simp add: cachedRecords_def Some cacheStep_refl)
next
  case None
  obtain r0 s1 where call: "getRecords c zone s = (r0, s1)"
    by (cases "getRecords c zone s")
  show ?thesis
  proof (cases r0)
    case (Inl err)
    show ?thesis
      by (intro exI [of _ "[(GetRecords zone, Some err)]"] exI [of _ "Inl err"] exI [of _ cache] exI [of _ s1])
         (use None in \<open>auto simp: cachedRecords_def call Inl failure_def cacheStep_def\<close>)
  next
    case (Inr recs)
    show ?thesis
      by (intro exI [of _ "[(GetRecords zone, None)]"] exI [of _ "Inr recs"]
            exI [of _ "cache(zone \<mapsto> recs)"] exI [of _ s1])
         (use None in \<open>auto simp: cachedRecords_def call Inr failure_def cacheStep_def\<close>)
  qed
qed

lemma deleteRecIDs_run:
  "\<exists>T s'. deleteRecIDs (traced c) recIDs (errs, (s, t)) = (errs @ failures T, (s', t @ T))
     \<and> map fst T = map DeleteRecord recIDs"
proof (induction recIDs arbitrary: errs s t)
  case Nil
  show ?case by (intro exI [of _ "[]"]) simp
next
  case (Cons recID recIDs)
  obtain r0 s1 where call: "deleteRecord c recID s = (r0, s1)"
    by (cases "deleteRecord c recID s")
  let ?ev = "(DeleteRecord recID, r0)"
  obtain T s' where rest:
    "deleteRecIDs (traced c) recIDs (errs @ failures [?ev], (s1, t @ [?ev]))
       = ((errs @ failures [?ev]) @ failures T, (s', (t @ [?ev]) @ T))"
    "map fst T = map DeleteRecord recIDs"
    using Cons.IH [of "errs @ failures [?ev]" s1 "t @ [?ev]"] by blast
  have "deleteRecIDs (traced c) (recID # recIDs) (errs, (s, t)) = (errs @ failures (?ev # T), (s', t @ ?ev # T))"
    using rest(1) call by (cases r0) simp_all
  then show ?case using rest(2) by (intro exI [of _ "?ev # T"] exI [of _ s']) simp
qed

lemma deletes_kind:
  "map fst T = map DeleteRecord recIDs \<Longrightarrow>
     fetchCalls T = [] \<and> list_all (\<lambda>ev. isFetch (fst ev) \<or> isDelete (fst ev)) T"
proof (induction T arbitrary: recIDs)
  case Nil
  show ?case by simp
next
  case (Cons ev T)
  obtain c r where ev: "ev = (c, r)" by (cases ev)
  obtain recID rest where ids: "recIDs = recID # rest" "c = DeleteRecord recID" "map fst T = map DeleteRecord rest"
    using Cons.prems by (cases recIDs) (auto simp: ev)
  show ?case using Cons.IH [OF ids(3)] by (simp add: ev ids(2))
qed


lemma getRecIDs_cases:
  assumes "getRecIDs zone recs ep = (recIDs, e)"
  shows "(e = None \<longrightarrow> length recIDs = length (Targets ep))
       \<and> (e \<noteq> None \<longrightarrow> recIDs = [] \<and> e = Some UnresolvedTargets \<and> Targets ep \<noteq> [])"
  using assms by (auto simp: getRecIDs_def Let_def split: if_splits)

lemma resolved_simps:
  "snd (getZone zones ep) = None \<Longrightarrow> unresolved zones [ep] = []"
  "snd (getZone zones ep) = None \<Longrightarrow> resolvedZones zones [ep] = [fst (getZone zones ep)]"
  "snd (getZone zones ep) \<noteq> None \<Longrightarrow> unresolved zones [ep] = [ep]"
  "snd (getZone zones ep) \<noteq> None \<Longrightarrow> resolvedZones zones [ep] = []"
  by (simp_all add: unresolved_def resolvedZones_def)

lemma resolvedZones_Cons:
  "resolvedZones zones (ep # eps) = resolvedZones zones [ep] @ resolvedZones zones eps"
  by (simp add: resolvedZones_def)

lemma deleteEndpoint_run:
  "\<exists>T E cache' s'. deleteEndpoint (traced c) zones ep (errs, cache, (s, t)) = (errs @ E, cache', (s', t @ T))
     \<and> cacheStep cache cache' T
     \<and> errStep E T (unresolved zones [ep]) (length (resolvedZones zones [ep]))
     \<and> set (fetchCalls T) \<subseteq> set (resolvedZones zones [ep])
     \<and> list_all (\<lambda>ev. isFetch (fst ev) \<or> isDelete (fst ev)) T"
proof -
  obtain zone e where z: "getZone zones ep = (zone, e)"
    by (cases "getZone zones ep")
  show ?thesis
  proof (cases e)
    case (Some err)
    then have err: "err = NoMatchingZone ep"
      using getZone_cases [OF z] by simp
    show ?thesis
      by (intro exI [of _ "[]"] exI [of _ "[NoMatchingZone ep]"] exI [of _ cache] exI [of _ s])
         (simp add: z Some err resolved_simps cacheStep_refl errStep_def)
  next
    case None
    note res = resolved_simps(1,2) [of zones ep]
    obtain T1 r cache' s1 where fetch:
      "cachedRecords (traced c) cache zone (s, t) = (r, cache', (s1, t @ T1))"
      "cacheStep cache cache' T1"
      "set (fetchCalls T1) \<subseteq> {zone}"
      "list_all (\<lambda>ev. isFetch (fst ev)) T1"
      "(case r of Inl err \<Rightarrow> failures T1 = [ClientError err] | Inr recs \<Rightarrow> failures T1 = [])"
      using cachedRecords_run [of c cache zone s t] by blast
    have kinds1: "list_all (\<lambda>ev. isFetch (fst ev) \<or> isDelete (fst ev)) T1"
      using fetch(4) by (simp add: list_all_iff)
    show ?thesis
    proof (cases r)
      case (Inl err)
      have run: "deleteEndpoint (traced c) zones ep (errs, cache, (s, t)) = (errs @ [ClientError err], cache', (s1, t @ T1))"
        by (simp add: z None fetch(1) Inl)
      have "errStep [ClientError err] T1 [] (Suc 0)"
        using fetch(5) by (simp add: Inl errStep_def)
      then show ?thesis
        using run fetch(2,3) kinds1
        by (intro exI [of _ T1] exI [of _ "[ClientError err]"] exI [of _ cache'] exI [of _ s1])
           (simp add: res z None)
    next
      case (Inr recs)
      obtain recIDs e' where loc: "getRecIDs zone recs ep = (recIDs, e')"
        by (cases "getRecIDs zone recs ep")
      define L where "L = (case e' of Some e \<Rightarrow> [e] | None \<Rightarrow> [])"
      have L: "backendErrors L = []" "zoneErrors L = []" "length (locatorErrors L) \<le> Suc 0"
        "length L = length (locatorErrors L)"
        using getRecIDs_cases [OF loc] by (cases e'; simp add: L_def)+
      have errs1: "(case e' of Some e \<Rightarrow> errs @ [e] | None \<Rightarrow> errs) = errs @ L"
        by (cases e') (simp_all add: L_def)
      obtain T2 s2 where dels:
        "deleteRecIDs (traced c) recIDs (errs @ L, (s1, t @ T1)) = ((errs @ L) @ failures T2, (s2, (t @ T1) @ T2))"
        "map fst T2 = map DeleteRecord recIDs"
        using deleteRecIDs_run [of c recIDs "errs @ L" s1 "t @ T1"] by blast
      note kinds2 = deletes_kind [OF dels(2)]
      have run: "deleteEndpoint (traced c) zones ep (errs, cache, (s, t))
          = (errs @ (L @ failures T2), cache', (s2, t @ (T1 @ T2)))"
        using dels(1) by (simp add: z None fetch(1) Inr loc errs1)
      have step: "cacheStep cache cache' (T1 @ T2)"
        using fetch(2) kinds2 by (intro cacheStep_append [of cache cache' T1 cache' T2] cacheStep_refl) simp_all
      have acc: "errStep (L @ failures T2) (T1 @ T2) [] (Suc 0)"
        using fetch(5) L by (simp add: Inr errStep_def)
      show ?thesis
        using run step acc fetch(3) kinds1 kinds2
        by (intro exI [of _ "T1 @ T2"] exI [of _ "L @ failures T2"] exI [of _ cache'] exI [of _ s2])
           (simp add: res z None)
    qed
  qed
qed

lemma deletePhase_run:
  "\<exists>T E cache' s'. deletePhase (traced c) zones eps (errs, cache, (s, t)) = (errs @ E, cache', (s', t @ T))
     \<and> cacheStep cache cache' T
     \<and> errStep E T (unresolved zones eps) (length (resolvedZones zones eps))
     \<and> set (fetchCalls T) \<subseteq> set (resolvedZones zones eps)
     \<and> list_all (\<lambda>ev. isFetch (fst ev) \<or> isDelete (fst ev)) T"
proof (induction eps arbitrary: errs cache s t)
  case Nil
  show ?case
    by (intro exI [of _ "[]"] exI [of _ "[]"] exI [of _ cache] exI [of _ s])
       (simp add: cacheStep_refl errStep_def resolvedZones_def)
next
  case (Cons ep eps)
  obtain T1 E1 cache1 s1 where first:
    "deleteEndpoint (traced c) zones ep (errs, cache, (s, t)) = (errs @ E1, cache1, (s1, t @ T1))"
    "cacheStep cache cache1 T1"
    "errStep E1 T1 (unresolved zones [ep]) (length (resolvedZones zones [ep]))"
    "set (fetchCalls T1) \<subseteq> set (resolvedZones zones [ep])"
    "list_all (\<lambda>ev. isFetch (fst ev) \<or> isDelete (fst ev)) T1"
    using deleteEndpoint_run [of c zones ep errs cache s t] by blast
  obtain T2 E2 cache2 s2 where rest:
    "deletePhase (traced c) zones eps (errs @ E1, cache1, (s1, t @ T1)) = ((errs @ E1) @ E2, cache2, (s2, (t @ T1) @ T2))"
    "cacheStep cache1 cache2 T2"
    "errStep E2 T2 (unresolved zones eps) (length (resolvedZones zones eps))"
    "set (fetchCalls T2) \<subseteq> set (resolvedZones zones eps)"
    "list_all (\<lambda>ev. isFetch (fst ev) \<or> isDelete (fst ev)) T2"
    using Cons.IH [of "errs @ E1" cache1 s1 "t @ T1"] by blast
  have run: "deletePhase (traced c) zones (ep # eps) (errs, cache, (s, t)) = (errs @ (E1 @ E2), cache2, (s2, t @ (T1 @ T2)))"
    using first(1) rest(1) by simp
  have acc: "errStep (E1 @ E2) (T1 @ T2) (unresolved zones (ep # eps)) (length (resolvedZones zones (ep # eps)))"
    using errStep_append [OF first(3) rest(3)]
    by (simp add: unresolved_Cons [of zones ep eps] resolvedZones_Cons [of zones ep eps])
  have sub: "set (fetchCalls (T1 @ T2)) \<subseteq> set (resolvedZones zones (ep # eps))"
    using first(4) rest(4) by (auto simp: resolvedZones_Cons [of zones ep eps])
  show ?case
    using run cacheStep_append [OF first(2) rest(2)] acc sub first(5) rest(5)
    by (intro exI [of _ "T1 @ T2"] exI [of _ "E1 @ E2"] exI [of _ cache2] exI [of _ s2]) simp
qed


lemma alignTargets_aligned:
  assumes len: "length recIDs = length (Targets oldEp)"
    and rng: "\<forall>j\<in>set js. j < max (length (Targets oldEp)) (length (Targets newEp))"
  shows "\<exists>T s'. alignTargets (traced c) zone (expectedName (DNSName newEp) zone) oldEp newEp recIDs js
            (errs, (s, t)) = (Inr (errs @ failures T), (s', t @ T))
     \<and> map fst T = map (alignCall zone oldEp newEp recIDs) js"
  using rng
proof (induction js arbitrary: errs s t)
  case Nil
  show ?case by (intro exI [of _ "[]"]) simp
next
  case (Cons j js)
  let ?name = "expectedName (DNSName newEp) zone"
  have j: "j < max (length (Targets oldEp)) (length (Targets newEp))"
    using Cons.prems by simp
  have step: "\<exists>T s'. alignTargets (traced c) zone ?name oldEp newEp recIDs (j # js) (errs, (s, t))
            = (Inr (errs @ failures T), (s', t @ T))
     \<and> map fst T = map (alignCall zone oldEp newEp recIDs) (j # js)"
    if go: "alignTargets (traced c) zone ?name oldEp newEp recIDs (j # js) (errs, (s, t))
            = alignTargets (traced c) zone ?name oldEp newEp recIDs js (errs @ failures [ev], (s1, t @ [ev]))"
      and ev: "fst ev = alignCall zone oldEp newEp recIDs j"
    for ev s1
  proof -
    obtain T s' where rest:
      "alignTargets (traced c) zone ?name oldEp newEp recIDs js (errs @ failures [ev], (s1, t @ [ev]))
         = (Inr ((errs @ failures [ev]) @ failures T), (s', (t @ [ev]) @ T))"
      "map fst T = map (alignCall zone oldEp newEp recIDs) js"
      using Cons.IH [of "errs @ failures [ev]" s1 "t @ [ev]"] Cons.prems by auto
    have "alignTargets (traced c) zone ?name oldEp newEp recIDs (j # js) (errs, (s, t))
        = (Inr (errs @ failures (ev # T)), (s', t @ ev # T))"
      using go rest(1) failures_append [of "[ev]" T] by simp
    then show ?thesis
      using rest(2) ev by (intro exI [of _ "ev # T"] exI [of _ s']) simp
  qed
  consider (del) "j \<ge> length (Targets newEp)"
    | (cre) "j < length (Targets newEp)" "j \<ge> length (Targets oldEp)"
    | (upd) "j < length (Targets newEp)" "j < length (Targets oldEp)"
    by linarith
  then show ?case
  proof cases
    case del
    then have old: "j < length (Targets oldEp)" using j by simp
    obtain r0 s1 where call: "deleteRecord c (recIDs ! j) s = (r0, s1)"
      by (cases "deleteRecord c (recIDs ! j) s")
    show ?thesis
      by (rule step [of "(DeleteRecord (recIDs ! j), r0)" s1])
         (use del old len call in \<open>cases r0; simp\<close>, simp add: alignCall_def del)
  next
    case cre
    let ?req = "\<lparr>ReqDomain = zone, ReqName = ?name, ReqType = RecordType newEp,
                 ReqTTL = RecordTTL newEp, ReqContent = Targets newEp ! j\<rparr>"
    obtain r0 s1 where call: "createRecord c ?req s = (r0, s1)"
      by (cases "createRecord c ?req s")
    show ?thesis
      by (rule step [of "(CreateRecord ?req, r0)" s1])
         (use cre call in \<open>cases r0; simp\<close>, use cre in \<open>simp add: alignCall_def\<close>)
  next
    case upd
    let ?req = "\<lparr>ReqDomain = zone, ReqName = ?name, ReqType = RecordType newEp,
                 ReqTTL = RecordTTL oldEp, ReqContent = Targets newEp ! j\<rparr>"
    obtain r0 s1 where call: "updateRecord c (recIDs ! j) ?req s = (r0, s1)"
      by (cases "updateRecord c (recIDs ! j) ?req s")
    show ?thesis
      by (rule step [of "(UpdateRecord (recIDs ! j) ?req, r0)" s1])
         (use upd len call in \<open>cases r0; simp\<close>, use upd in \<open>simp add: alignCall_def\<close>)
  qed
qed

lemma alignTargets_unlocated:
  assumes "Targets oldEp \<noteq> []" and "0 < n"
  shows "alignTargets c zone name oldEp newEp [] [0 ..< n] (errs, s) = (Inl (IndexOutOfRange 0 0), s)"
proof -
  obtain js where "[0 ..< n] = 0 # js"
    using assms(2) by (metis upt_conv_Cons)
  then show ?thesis using assms(1) by simp
qed

lemma updatePair_run:
  "\<exists>T r cache' s'. updatePair (traced c) zones oldEp newEp (errs, cache, (s, t)) = (r, cache', (s', t @ T))
     \<and> cacheStep cache cache' T
     \<and> set (fetchCalls T) \<subseteq> set (resolvedZones zones [oldEp])
     \<and> list_all (\<lambda>ev. isFetch (fst ev) \<or> isMutation (fst ev)) T
     \<and> (case r of Inl p \<Rightarrow> True
          | Inr errs' \<Rightarrow> \<exists>E. errs' = errs @ E \<and> errStep E T (unresolved zones [oldEp]) 0)
     \<and> (snd (getZone zones oldEp) = None \<and> cache (fst (getZone zones oldEp)) = None
          \<longrightarrow> (\<exists>r0 T'. T = (GetRecords (fst (getZone zones oldEp)), r0) # T'))"
proof -
  obtain zone e where z: "getZone zones oldEp = (zone, e)"
    by (cases "getZone zones oldEp")
  show ?thesis
  proof (cases e)
    case (Some err)
    then have err: "err = NoMatchingZone oldEp"
      using getZone_cases [OF z] by simp
    show ?thesis
      by (intro exI [of _ "[]"] exI [of _ "Inr (errs @ [NoMatchingZone oldEp])"] exI [of _ cache] exI [of _ s])
         (simp add: z Some err resolved_simps cacheStep_refl errStep_def)
  next
    case None
    note res = resolved_simps(1,2) [of zones oldEp]
    obtain T1 r1 cache' s1 where fetch:
      "cachedRecords (traced c) cache zone (s, t) = (r1, cache', (s1, t @ T1))"
      "cacheStep cache cache' T1"
      "set (fetchCalls T1) \<subseteq> {zone}"
      "list_all (\<lambda>ev. isFetch (fst ev)) T1"
      "(case r1 of Inl err \<Rightarrow> failures T1 = [ClientError err] | Inr recs \<Rightarrow> failures T1 = [])"
      "cache zone = None \<longrightarrow> (\<exists>r0. T1 = [(GetRecords zone, r0)])"
      using cachedRecords_run [of c cache zone s t] by (elim exE conjE) (rule that, assumption+)
    have kinds1: "list_all (\<lambda>ev. isFetch (fst ev) \<or> isMutation (fst ev)) T1"
      using fetch(4) by (simp add: list_all_iff)
    have first: "cache zone = None \<longrightarrow> (\<exists>r0 T'. T1 @ T2 = (GetRecords zone, r0) # T')" for T2
      using fetch(6) by auto
    show ?thesis
    proof (cases r1)
      case (Inl err)
      have run: "updatePair (traced c) zones oldEp newEp (errs, cache, (s, t))
          = (Inr (errs @ [ClientError err]), cache', (s1, t @ T1))"
        by (simp add: z None fetch(1) Inl)
      have "errStep [ClientError err] T1 [] 0"
        using fetch(5) by (simp add: Inl errStep_def)
      then show ?thesis
        using run fetch(2,3) kinds1 first [of "[]"]
        by (intro exI [of _ T1] exI [of _ "Inr (errs @ [ClientError err])"] exI [of _ cache'] exI [of _ s1])
           (simp add: res z None)
    next
      case (Inr recs)
      obtain recIDs e' where loc: "getRecIDs zone recs oldEp = (recIDs, e')"
        by (cases "getRecIDs zone recs oldEp")
      show ?thesis
      proof (cases e')
        case (Some le)
        then have unloc: "recIDs = []" "Targets oldEp \<noteq> []"
          using getRecIDs_cases [OF loc] by simp_all
        then have "0 < max (length (Targets oldEp)) (length (Targets newEp))"
          by (cases "Targets oldEp") simp_all
        then have run: "updatePair (traced c) zones oldEp newEp (errs, cache, (s, t))
            = (Inl (IndexOutOfRange 0 0), cache', (s1, t @ T1))"
          using unloc by (simp add: z None fetch(1) Inr loc alignTargets_unlocated del: upt.simps)
        show ?thesis
          using run fetch(2,3) kinds1 first [of "[]"]
          by (intro exI [of _ T1] exI [of _ "Inl (IndexOutOfRange 0 0)"] exI [of _ cache'] exI [of _ s1])
             (simp add: res z None)
      next
        case noerr: None
        obtain T2 r s2 where align:
          "alignTargets (traced c) zone (relativeName (DNSName newEp) zone) oldEp newEp recIDs
             [0 ..< max (length (Targets oldEp)) (max (length (Targets newEp)) (length recIDs))]
             (errs, (s1, t @ T1)) = (r, (s2, (t @ T1) @ T2))"
          "fetchCalls T2 = []" "list_all (\<lambda>ev. isMutation (fst ev)) T2"
          "(case r of Inl p \<Rightarrow> True | Inr errs' \<Rightarrow> errs' = errs @ failures T2)"
          using alignTargets_run [of c zone "relativeName (DNSName newEp) zone" oldEp newEp recIDs
              "[0 ..< max (length (Targets oldEp)) (max (length (Targets newEp)) (length recIDs))]"
              errs s1 "t @ T1"] by blast
        have run: "updatePair (traced c) zones oldEp newEp (errs, cache, (s, t))
            = (r, cache', (s2, t @ (T1 @ T2)))"
          using align(1) by (simp add: z None fetch(1) Inr loc noerr del: upt.simps)
        have step: "cacheStep cache cache' (T1 @ T2)"
          using fetch(2) align(2)
          by (intro cacheStep_append [of cache cache' T1 cache' T2] cacheStep_refl) simp_all
        have kinds: "list_all (\<lambda>ev. isFetch (fst ev) \<or> isMutation (fst ev)) (T1 @ T2)"
          using kinds1 align(3) by (auto simp: list_all_iff)
        have u: "unresolved zones [oldEp] = []"
          using res(1) z None by simp
        have acc: "case r of Inl p \<Rightarrow> True
          | Inr errs' \<Rightarrow> \<exists>E. errs' = errs @ E \<and> errStep E (T1 @ T2) (unresolved zones [oldEp]) 0"
        proof (cases r)
          case (Inr errs')
          then have "errs' = errs @ failures T2" using align(4) by simp
          moreover have "errStep (failures T2) (T1 @ T2) [] 0"
            using fetch(5) \<open>r1 = Inr recs\<close> by (simp add: errStep_def)
          ultimately show ?thesis using Inr u by auto
        qed simp
        show ?thesis
          using run step kinds acc fetch(3) align(2) first [of T2]
          by (intro exI [of _ "T1 @ T2"] exI [of _ r] exI [of _ cache'] exI [of _ s2])
             (simp add: res z None)
      qed
    qed
  qed
qed


lemma updatePhase_run:
  "\<exists>T r cache' s'. updatePhase (traced c) zones updateOld updateNew i (errs, cache, (s, t))
         = (r, cache', (s', t @ T))
     \<and> cacheStep cache cache' T
     \<and> set (fetchCalls T) \<subseteq> set (resolvedZones zones updateOld)
     \<and> list_all (\<lambda>ev. isFetch (fst ev) \<or> isMutation (fst ev)) T
     \<and> (case r of Inl p \<Rightarrow> True
          | Inr errs' \<Rightarrow> \<exists>E. errs' = errs @ E \<and> errStep E T (unresolved zones updateOld) 0)"
proof (induction updateOld arbitrary: i errs cache s t)
  case Nil
  have "errStep [] [] [] 0" by (simp add: errStep_def)
  then show ?case
    by (intro exI [of _ "[]"] exI [of _ "Inr errs"] exI [of _ cache] exI [of _ s])
       (simp add: cacheStep_refl resolvedZones_def)
next
  case (Cons oldEp updateOld)
  show ?case
  proof (cases "i < length updateNew")
    case False
    then show ?thesis
      by (intro exI [of _ "[]"] exI [of _ "Inl (IndexOutOfRange i (length updateNew))"]
            exI [of _ cache] exI [of _ s])
         (simp add: cacheStep_refl)
  next
    case True
    obtain T1 r1 cache1 s1 where first:
      "updatePair (traced c) zones oldEp (updateNew ! i) (errs, cache, (s, t)) = (r1, cache1, (s1, t @ T1))"
      "cacheStep cache cache1 T1"
      "set (fetchCalls T1) \<subseteq> set (resolvedZones zones [oldEp])"
      "list_all (\<lambda>ev. isFetch (fst ev) \<or> isMutation (fst ev)) T1"
      "(case r1 of Inl p \<Rightarrow> True
          | Inr errs' \<Rightarrow> \<exists>E. errs' = errs @ E \<and> errStep E T1 (unresolved zones [oldEp]) 0)"
      using updatePair_run [of c zones oldEp "updateNew ! i" errs cache s t]
      by (elim exE conjE) (rule that, assumption+)
    have sub1: "set (fetchCalls T1) \<subseteq> set (resolvedZones zones (oldEp # updateOld))"
      using first(3) by (auto simp: resolvedZones_Cons [of zones oldEp updateOld])
    show ?thesis
    proof (cases r1)
      case (Inl p)
      have "updatePhase (traced c) zones (oldEp # updateOld) updateNew i (errs, cache, (s, t))
          = (Inl p, cache1, (s1, t @ T1))"
        using True first(1) Inl by simp
      then show ?thesis
        using first(2,4) sub1
        by (intro exI [of _ T1] exI [of _ "Inl p"] exI [of _ cache1] exI [of _ s1]) simp
    next
      case (Inr errs1)
      then obtain E1 where E1: "errs1 = errs @ E1" "errStep E1 T1 (unresolved zones [oldEp]) 0"
        using first(5) by auto
      obtain T2 r cache2 s2 where rest:
        "updatePhase (traced c) zones updateOld updateNew (Suc i) (errs @ E1, cache1, (s1, t @ T1))
           = (r, cache2, (s2, (t @ T1) @ T2))"
        "cacheStep cache1 cache2 T2"
        "set (fetchCalls T2) \<subseteq> set (resolvedZones zones updateOld)"
        "list_all (\<lambda>ev. isFetch (fst ev) \<or> isMutation (fst ev)) T2"
        "(case r of Inl p \<Rightarrow> True
          | Inr errs' \<Rightarrow> \<exists>E. errs' = (errs @ E1) @ E \<and> errStep E T2 (unresolved zones updateOld) 0)"
        using Cons.IH [of "Suc i" "errs @ E1" cache1 s1 "t @ T1"]
        by (elim exE conjE) (rule that, assumption+)
      have run: "updatePhase (traced c) zones (oldEp # updateOld) updateNew i (errs, cache, (s, t))
          = (r, cache2, (s2, t @ (T1 @ T2)))"
        using True first(1) Inr E1(1) rest(1) by simp
      have sub: "set (fetchCalls (T1 @ T2)) \<subseteq> set (resolvedZones zones (oldEp # updateOld))"
        using sub1 rest(3) by (auto simp: resolvedZones_Cons [of zones oldEp updateOld])
      have kinds: "list_all (\<lambda>ev. isFetch (fst ev) \<or> isMutation (fst ev)) (T1 @ T2)"
        using first(4) rest(4) by simp
      have acc: "case r of Inl p \<Rightarrow> True
          | Inr errs' \<Rightarrow> \<exists>E. errs' = errs @ E
              \<and> errStep E (T1 @ T2) (unresolved zones (oldEp # updateOld)) 0"
      proof (cases r)
        case (Inr errs')
        then obtain E2 where E2: "errs' = (errs @ E1) @ E2" "errStep E2 T2 (unresolved zones updateOld) 0"
          using rest(5) by auto
        have "errStep (E1 @ E2) (T1 @ T2) (unresolved zones (oldEp # updateOld)) 0"
          using errStep_append [OF E1(2) E2(2)] by (simp add: unresolved_Cons [of zones oldEp updateOld])
        then show ?thesis using Inr E2(1) by auto
      qed simp
      show ?thesis
        using run cacheStep_append [OF first(2) rest(2)] sub kinds acc
        by (intro exI [of _ "T1 @ T2"] exI [of _ r] exI [of _ cache2] exI [of _ s2]) simp
    qed
  qed
qed

lemma updatePhase_first_fetch:
  assumes "i < length updateNew"
    and "snd (getZone zones oldEp) = None"
    and "cache (fst (getZone zones oldEp)) = None"
    and "updatePhase (traced c) zones (oldEp # updateOld) updateNew i (errs, cache, (s, t))
           = (r, cache', (s', t @ T))"
  shows "\<exists>r0 T'. T = (GetRecords (fst (getZone zones oldEp)), r0) # T'"
proof -
  obtain T1 r1 cache1 s1 where first:
    "updatePair (traced c) zones oldEp (updateNew ! i) (errs, cache, (s, t)) = (r1, cache1, (s1, t @ T1))"
    "\<exists>r0 T'. T1 = (GetRecords (fst (getZone zones oldEp)), r0) # T'"
    using updatePair_run [of c zones oldEp "updateNew ! i" errs cache s t] assms(2,3)
    by (elim exE conjE) (rule that, assumption, blast)
  show ?thesis
  proof (cases r1)
    case (Inl p)
    then have "t @ T = t @ T1"
      using assms(1,4) first(1) by simp
    then show ?thesis using first(2) by simp
  next
    case (Inr errs1)
    obtain T2 r2 cache2 s2 where rest:
      "updatePhase (traced c) zones updateOld updateNew (Suc i) (errs1, cache1, (s1, t @ T1))
         = (r2, cache2, (s2, (t @ T1) @ T2))"
      using updatePhase_run [of c zones updateOld updateNew "Suc i" errs1 cache1 s1 "t @ T1"] by blast
    then have "t @ T = t @ T1 @ T2"
      using assms(1,4) first(1) Inr by simp
    then show ?thesis using first(2) by auto
  qed
qed

text \<open>
  A failed fetch leaves the cache as it was, so the zone is still not cached for the next
  endpoint; and an update pair whose fetch fails records the fetch error and issues no
  further call.
\<close>

lemma cachedRecords_failure_not_cached:
  assumes "cachedRecords c cache zone s = (Inl err, cache', s')"
  shows "cache' = cache \<and> cache zone = None"
  using assms
  by (auto simp: cachedRecords_def split: option.splits prod.splits sum.splits)

lemma updatePair_fetch_failure_skips:
  assumes "getZone zones oldEp = (zone, None)"
    and "cachedRecords c cache zone s = (Inl err, cache', s')"
  shows "updatePair c zones oldEp newEp (errs, cache, s) = (Inr (errs @ [ClientError err]), cache', s')"
  using assms by simp

section \<open>Whole calls\<close>

text \<open>
  C10. A plan whose four partitions are empty makes the call return success at once: the
  backend state is the one it started from, and a client that logs its calls has logged
  none (no login, no zone listing, no fetch, no mutation).
\<close>

theorem ApplyChanges_no_changes:
  assumes "Create changes = []" and "UpdateOld changes = []"
    and "UpdateNew changes = []" and "Delete changes = []"
  shows "ApplyChanges c changes s = (Returned None, s)
       \<and> ApplyChanges (traced c) changes (s, t) = (Returned None, (s, t))"
  using assms by (simp add: ApplyChanges_def HasChanges_def)

theorem ApplyChanges_no_changes_witness:
  "ApplyChanges (traced tableClient)
     \<lparr>Create = [], UpdateOld = [], UpdateNew = [], Delete = []\<rparr>
     (\<lparr>loginResult = None, zoneList = [''example.com''], zoneTable = [(''example.com'', [])],
       mutationResult = None\<rparr>, [])
   = (Returned None,
      (\<lparr>loginResult = None, zoneList = [''example.com''], zoneTable = [(''example.com'', [])],
        mutationResult = None\<rparr>, []))"
  using ApplyChanges_no_changes [of "\<lparr>Create = [], UpdateOld = [], UpdateNew = [], Delete = []\<rparr>"
      tableClient
      "\<lparr>loginResult = None, zoneList = [''example.com''], zoneTable = [(''example.com'', [])],
        mutationResult = None\<rparr>" "[]"]
  by simp

text \<open>
  C5 fails on the code. The listing joins the relative name, a dot and the zone name for
  every record, so a record at the zone apex (empty relative name) is listed under the
  zone name with a leading dot, where the locator derives the zone name itself.
\<close>

theorem Records_apex_leading_dot:
  "fst (Records tableClient
     \<lparr>loginResult = None, zoneList = [''example.com''],
      zoneTable = [(''example.com'',
        [\<lparr>ID = 1, Name = [], Type = ''A'', Content = ''1.2.3.4'', TTL = 300, Priority = 0\<rparr>])],
      mutationResult = None\<rparr>)
   = Inr [\<lparr>DNSName = ''.example.com'', Targets = [''1.2.3.4''], RecordType = ''A'', RecordTTL = 300\<rparr>]"
  by (simp add: Records_def tableClient_def NewEndpointWithTTL_def TrimSuffix_def HasSuffix_def)

text \<open>
  C6 fails on the code. The old endpoint has a target with no record in the snapshot, so
  the locator fails and returns no identifier; the new endpoint has no target, so position
  0 takes the delete branch, and \<open>recIDs[0]\<close> on the empty slice panics.
\<close>

theorem ApplyChanges_locator_failure_panics:
  "fst (ApplyChanges tableClient
     \<lparr>Create = [],
      UpdateOld = [\<lparr>DNSName = ''a.example.com'', Targets = [''1.1.1.1''], RecordType = ''A'', RecordTTL = 300\<rparr>],
      UpdateNew = [\<lparr>DNSName = ''a.example.com'', Targets = [], RecordType = ''A'', RecordTTL = 300\<rparr>],
      Delete = []\<rparr>
     \<lparr>loginResult = None, zoneList = [''example.com''], zoneTable = [(''example.com'', [])],
      mutationResult = None\<rparr>)
   = Panicked (IndexOutOfRange 0 0)"
  by (simp add: ApplyChanges_def HasChanges_def applyPhases_def tableClient_def getZone_def
      HasSuffix_def cachedRecords_def getRecIDs_def relativeName_def TrimSuffix_def)

text \<open>
  C1, as the code has it. For an update pair whose zone resolves, whose snapshot is in the
  cache or is fetched successfully, and whose old endpoint the locator resolves, the
  alignment runs through the positions \<open>j\<close> from 0 below the maximum of the three
  lengths without a panic and issues, in order: a delete of \<open>recIDs[j]\<close> where the
  new endpoint has no target at \<open>j\<close>; otherwise a create with the new endpoint's
  type and TTL where the old endpoint has no target at \<open>j\<close>; otherwise an update of
  \<open>recIDs[j]\<close> with the new endpoint's type and the old endpoint's TTL. Each request
  carries the zone, the relative name of the new endpoint and its target at \<open>j\<close>.
  Every failed call is recorded and the loop goes on.
\<close>

theorem updatePair_alignment:
  assumes "getZone zones oldEp = (zone, None)"
    and "cachedRecords (traced c) cache zone (s, t) = (Inr recs, cache', (s1, t1))"
    and "getRecIDs zone recs oldEp = (recIDs, None)"
  shows "\<exists>T s'. updatePair (traced c) zones oldEp newEp (errs, cache, (s, t))
            = (Inr (errs @ failures T), cache', (s', t1 @ T))
     \<and> map fst T = map (alignCall zone oldEp newEp recIDs)
          [0 ..< max (length (Targets oldEp)) (max (length (Targets newEp)) (length recIDs))]"
proof -
  have len: "length recIDs = length (Targets oldEp)"
    using getRecIDs_cases [OF assms(3)] by simp
  let ?js = "[0 ..< max (length (Targets oldEp)) (max (length (Targets newEp)) (length recIDs))]"
  have rng: "\<forall>j\<in>set ?js. j < max (length (Targets oldEp)) (length (Targets newEp))"
    using len by auto
  obtain T s' where align:
    "alignTargets (traced c) zone (expectedName (DNSName newEp) zone) oldEp newEp recIDs ?js (errs, (s1, t1))
       = (Inr (errs @ failures T), (s', t1 @ T))"
    "map fst T = map (alignCall zone oldEp newEp recIDs) ?js"
    using alignTargets_aligned [OF len rng, of c zone errs s1 t1] by blast
  have "updatePair (traced c) zones oldEp newEp (errs, cache, (s, t))
      = (Inr (errs @ failures T), cache', (s', t1 @ T))"
    using align(1) by (simp add: assms relativeName_expected del: upt.simps)
  then show ?thesis using align(2) by blast
qed

lemma applyPhases_run:
  "\<exists>Td Tc Tu errs1 cache1 s1 errs2 s2 r cache3 s3.
     deletePhase (traced c) zones (Delete changes) ([], Map.empty, (s, t)) = (errs1, cache1, (s1, t @ Td))
   \<and> createPhase (traced c) zones (Create changes) (errs1, (s1, t @ Td)) = (errs2, (s2, t @ Td @ Tc))
   \<and> updatePhase (traced c) zones (UpdateOld changes) (UpdateNew changes) 0
        (errs2, Map.empty, (s2, t @ Td @ Tc)) = (r, cache3, (s3, t @ Td @ Tc @ Tu))
   \<and> applyPhases (traced c) zones changes (s, t)
        = (case r of Inl p \<Rightarrow> Panicked p
           | Inr errs \<Rightarrow> Returned (if length errs > 0 then Some (Aggregated (length errs)) else None),
           (s3, t @ Td @ Tc @ Tu))
   \<and> list_all (\<lambda>ev. isFetch (fst ev) \<or> isDelete (fst ev)) Td
   \<and> list_all (\<lambda>ev. isCreate (fst ev)) Tc
   \<and> list_all (\<lambda>ev. isFetch (fst ev) \<or> isMutation (fst ev)) Tu
   \<and> lazyFetches {} Td \<and> lazyFetches {} Tu
   \<and> set (fetchCalls Td) \<subseteq> set (resolvedZones zones (Delete changes))
   \<and> set (fetchCalls Tu) \<subseteq> set (resolvedZones zones (UpdateOld changes))
   \<and> (case r of Inl p \<Rightarrow> True
        | Inr errs \<Rightarrow>
            errStep errs (Td @ Tc @ Tu)
              (unresolved zones (Delete changes @ Create changes @ UpdateOld changes))
              (length (resolvedZones zones (Delete changes))))"
proof -
  obtain Td E1 cache1 s1 where del:
    "deletePhase (traced c) zones (Delete changes) ([], Map.empty, (s, t)) = ([] @ E1, cache1, (s1, t @ Td))"
    "cacheStep Map.empty cache1 Td"
    "errStep E1 Td (unresolved zones (Delete changes)) (length (resolvedZones zones (Delete changes)))"
    "set (fetchCalls Td) \<subseteq> set (resolvedZones zones (Delete changes))"
    "list_all (\<lambda>ev. isFetch (fst ev) \<or> isDelete (fst ev)) Td"
    using deletePhase_run [of c zones "Delete changes" "[]" Map.empty s t] by blast
  obtain Tc E2 s2 where cre:
    "createPhase (traced c) zones (Create changes) (E1, (s1, t @ Td)) = (E1 @ E2, (s2, (t @ Td) @ Tc))"
    "map fst Tc = concat (map (createCalls zones) (Create changes))"
    "errStep E2 Tc (unresolved zones (Create changes)) 0"
    using createPhase_run [of c zones "Create changes" E1 s1 "t @ Td"] by blast
  obtain Tu r cache3 s3 where upd:
    "updatePhase (traced c) zones (UpdateOld changes) (UpdateNew changes) 0
       (E1 @ E2, Map.empty, (s2, (t @ Td) @ Tc)) = (r, cache3, (s3, ((t @ Td) @ Tc) @ Tu))"
    "cacheStep Map.empty cache3 Tu"
    "set (fetchCalls Tu) \<subseteq> set (resolvedZones zones (UpdateOld changes))"
    "list_all (\<lambda>ev. isFetch (fst ev) \<or> isMutation (fst ev)) Tu"
    "(case r of Inl p \<Rightarrow> True
      | Inr errs' \<Rightarrow> \<exists>E. errs' = (E1 @ E2) @ E \<and> errStep E Tu (unresolved zones (UpdateOld changes)) 0)"
    using updatePhase_run [of c zones "UpdateOld changes" "UpdateNew changes" 0 "E1 @ E2" Map.empty s2 "(t @ Td) @ Tc"]
    by (elim exE conjE) (rule that, assumption+)
  have run: "applyPhases (traced c) zones changes (s, t)
        = (case r of Inl p \<Rightarrow> Panicked p
           | Inr errs \<Rightarrow> Returned (if length errs > 0 then Some (Aggregated (length errs)) else None),
           (s3, t @ Td @ Tc @ Tu))"
    using del(1) cre(1) upd(1) by (cases r) (simp_all add: applyPhases_def)
  have acc: "case r of Inl p \<Rightarrow> True
        | Inr errs \<Rightarrow>
            errStep errs (Td @ Tc @ Tu)
              (unresolved zones (Delete changes @ Create changes @ UpdateOld changes))
              (length (resolvedZones zones (Delete changes)))"
  proof (cases r)
    case (Inr errs)
    then obtain E3 where E3: "errs = (E1 @ E2) @ E3" "errStep E3 Tu (unresolved zones (UpdateOld changes)) 0"
      using upd(5) by auto
    have "errStep (E1 @ E2 @ E3) (Td @ Tc @ Tu)
        (unresolved zones (Delete changes) @ unresolved zones (Create changes) @ unresolved zones (UpdateOld changes))
        (length (resolvedZones zones (Delete changes)) + (0 + 0))"
      by (intro errStep_append del(3) cre(3) E3(2))
    then show ?thesis using Inr E3(1) by simp
  qed simp
  have lazy: "lazyFetches {} Td" "lazyFetches {} Tu"
    using del(2) upd(2) by (simp_all add: cacheStep_def)
  show ?thesis
    using del(1) cre(1) upd(1) run del(4,5) creates_kind [OF cre(2)] upd(3,4) lazy acc
    by (intro exI [of _ Td] exI [of _ Tc] exI [of _ Tu] exI [of _ E1] exI [of _ cache1] exI [of _ s1]
          exI [of _ "E1 @ E2"] exI [of _ s2] exI [of _ r] exI [of _ cache3] exI [of _ s3]) simp
qed


lemma ApplyChanges_run:
  assumes "HasChanges changes"
    and "login c s = (None, s1)"
    and "getZones c s1 = (Inr zones, s2)"
    and "applyPhases (traced c) zones changes (s2, [(Login, None), (GetZones, None)]) = (res, (s3, T3))"
  shows "\<exists>lo s4. ApplyChanges (traced c) changes (s, []) = (res, (s4, T3 @ [(Logout, lo)]))"
proof -
  obtain lo s4 where "logout c s3 = (lo, s4)"
    by (cases "logout c s3")
  then have "ApplyChanges (traced c) changes (s, []) = (res, (s4, T3 @ [(Logout, lo)]))"
    using assms by (simp add: ApplyChanges_def failure_def)
  then show ?thesis by blast
qed

lemma stepErrors_simps [simp]:
  "stepErrors [] = []"
  "stepErrors (ZoneStep ep True # steps) = stepErrors steps"
  "stepErrors (ZoneStep ep False # steps) = NoMatchingZone ep # stepErrors steps"
  "stepErrors (LocateStep ep True # steps) = stepErrors steps"
  "stepErrors (LocateStep ep False # steps) = UnresolvedTargets # stepErrors steps"
  "stepErrors (CallStep c None # steps) = stepErrors steps"
  "stepErrors (CallStep c (Some err) # steps) = ClientError err # stepErrors steps"
  by (simp_all add: stepErrors_def)

lemma stepErrors_append [simp]: "stepErrors (steps @ steps') = stepErrors steps @ stepErrors steps'"
  by (simp add: stepErrors_def)

lemma callsOf_simps [simp]:
  "callsOf [] = []"
  "callsOf (ZoneStep ep resolved # steps) = callsOf steps"
  "callsOf (LocateStep ep located # steps) = callsOf steps"
  "callsOf (CallStep c r # steps) = (c, r) # callsOf steps"
  by (simp_all add: callsOf_def)

lemma callsOf_append [simp]: "callsOf (steps @ steps') = callsOf steps @ callsOf steps'"
  by (simp add: callsOf_def)

lemma endpointsOf_simps [simp]:
  "endpointsOf [] = []"
  "endpointsOf (ZoneStep ep resolved # steps) = ep # endpointsOf steps"
  "endpointsOf (LocateStep ep located # steps) = endpointsOf steps"
  "endpointsOf (CallStep c r # steps) = endpointsOf steps"
  by (simp_all add: endpointsOf_def)

lemma endpointsOf_append [simp]:
  "endpointsOf (steps @ steps') = endpointsOf steps @ endpointsOf steps'"
  by (simp add: endpointsOf_def)

lemma callSteps_simps [simp]:
  "callSteps [] = []"
  "callSteps ((c, r) # evs) = CallStep c r # callSteps evs"
  by (simp_all add: callSteps_def)

lemma callsOf_callSteps [simp]: "callsOf (callSteps evs) = evs"
  by (induction evs) auto

lemma stepErrors_callSteps [simp]: "stepErrors (callSteps evs) = failures evs"
proof (induction evs)
  case Nil
  show ?case by simp
next
  case (Cons ev evs)
  obtain c r where ev: "ev = (c, r)" by (cases ev)
  show ?case using Cons by (cases r) (simp_all add: ev)
qed

lemma endpointsOf_callSteps [simp]: "endpointsOf (callSteps evs) = []"
  by (induction evs) auto

lemma countFailed_stepErrors: "countFailed steps = length (stepErrors steps)"
proof (induction steps)
  case Nil
  show ?case by (simp add: countFailed_def)
next
  case (Cons st steps)
  then have tl: "length (filter failedStep steps) = length (stepErrors steps)"
    by (simp add: countFailed_def)
  show ?case
  proof (cases st)
    case (ZoneStep ep resolved)
    then show ?thesis using tl by (cases resolved) (simp_all add: countFailed_def)
  next
    case (LocateStep ep located)
    then show ?thesis using tl by (cases located) (simp_all add: countFailed_def)
  next
    case (CallStep c r)
    then show ?thesis using tl by (cases r) (simp_all add: countFailed_def)
  qed
qed


lemma deleteRecIDs_performAll:
  "deleteRecIDs (traced c) recIDs (errs, (s, t))
     = (case performAll c (map DeleteRecord recIDs) s of
          (evs, s') \<Rightarrow> (errs @ failures evs, (s', t @ evs)))"
proof (induction recIDs arbitrary: errs s t)
  case Nil
  show ?case by simp
next
  case (Cons recID recIDs)
  obtain r s1 where call: "deleteRecord c recID s = (r, s1)"
    by (cases "deleteRecord c recID s")
  obtain evs s2 where rest: "performAll c (map DeleteRecord recIDs) s1 = (evs, s2)"
    by (cases "performAll c (map DeleteRecord recIDs) s1")
  show ?case
    by (cases r) (simp_all add: call rest Cons.IH)
qed

lemma createTargets_performAll:
  "createTargets (traced c) zone ep targets (errs, (s, t))
     = (case performAll c
               (map (\<lambda>target. CreateRecord
                      \<lparr>ReqDomain = zone, ReqName = expectedName (DNSName ep) zone,
                       ReqType = RecordType ep, ReqTTL = RecordTTL ep, ReqContent = target\<rparr>)
                  targets) s of
          (evs, s') \<Rightarrow> (errs @ failures evs, (s', t @ evs)))"
proof (induction targets arbitrary: errs s t)
  case Nil
  show ?case by simp
next
  case (Cons target targets)
  let ?req = "\<lparr>ReqDomain = zone, ReqName = expectedName (DNSName ep) zone,
               ReqType = RecordType ep, ReqTTL = RecordTTL ep, ReqContent = target\<rparr>"
  let ?calls = "map (\<lambda>target. CreateRecord
                      \<lparr>ReqDomain = zone, ReqName = expectedName (DNSName ep) zone,
                       ReqType = RecordType ep, ReqTTL = RecordTTL ep, ReqContent = target\<rparr>)
                  targets"
  obtain r s1 where call: "createRecord c ?req s = (r, s1)"
    by (cases "createRecord c ?req s")
  obtain evs s2 where rest: "performAll c ?calls s1 = (evs, s2)"
    by (cases "performAll c ?calls s1")
  show ?case
    by (cases r) (simp_all add: call rest Cons.IH relativeName_expected)
qed

lemma alignTargets_performAll:
  assumes len: "length recIDs = length (Targets oldEp)"
    and rng: "\<forall>j\<in>set js. j < max (length (Targets oldEp)) (length (Targets newEp))"
  shows "alignTargets (traced c) zone (expectedName (DNSName newEp) zone) oldEp newEp recIDs js
            (errs, (s, t))
     = (case performAll c (map (alignCall zone oldEp newEp recIDs) js) s of
          (evs, s') \<Rightarrow> (Inr (errs @ failures evs), (s', t @ evs)))"
  using rng
proof (induction js arbitrary: errs s t)
  case Nil
  show ?case by simp
next
  case (Cons j js)
  have j: "j < max (length (Targets oldEp)) (length (Targets newEp))"
    using Cons.prems by simp
  have IH: "alignTargets (traced c) zone (expectedName (DNSName newEp) zone) oldEp newEp recIDs js
            (errs', (s', t'))
     = (case performAll c (map (alignCall zone oldEp newEp recIDs) js) s' of
          (evs, s'') \<Rightarrow> (Inr (errs' @ failures evs), (s'', t' @ evs)))" for errs' s' t'
    using Cons.IH [of errs' s' t'] Cons.prems by simp
  obtain r s1 where call: "perform c (alignCall zone oldEp newEp recIDs j) s = (r, s1)"
    by (cases "perform c (alignCall zone oldEp newEp recIDs j) s")
  obtain evs s2 where rest: "performAll c (map (alignCall zone oldEp newEp recIDs) js) s1 = (evs, s2)"
    by (cases "performAll c (map (alignCall zone oldEp newEp recIDs) js) s1")
  consider (del) "j \<ge> length (Targets newEp)"
    | (cre) "j < length (Targets newEp)" "j \<ge> length (Targets oldEp)"
    | (upd) "j < length (Targets newEp)" "j < length (Targets oldEp)"
    by linarith
  then show ?case
  proof cases
    case del
    then have old: "j < length (Targets oldEp)" using j by simp
    have kind: "alignCall zone oldEp newEp recIDs j = DeleteRecord (recIDs ! j)"
      using del by (simp add: alignCall_def)
    show ?thesis
      using call del old len by (cases r) (simp_all add: kind rest IH)
  next
    case cre
    have kind: "alignCall zone oldEp newEp recIDs j
        = CreateRecord \<lparr>ReqDomain = zone, ReqName = expectedName (DNSName newEp) zone,
                      ReqType = RecordType newEp, ReqTTL = RecordTTL newEp,
                      ReqContent = Targets newEp ! j\<rparr>"
      using cre by (simp add: alignCall_def)
    show ?thesis
      using call cre by (cases r) (simp_all add: kind rest IH)
  next
    case upd
    have kind: "alignCall zone oldEp newEp recIDs j
        = UpdateRecord (recIDs ! j)
          \<lparr>ReqDomain = zone, ReqName = expectedName (DNSName newEp) zone,
           ReqType = RecordType newEp, ReqTTL = RecordTTL oldEp,
           ReqContent = Targets newEp ! j\<rparr>"
      using upd by (simp add: alignCall_def)
    show ?thesis
      using call upd len by (cases r) (simp_all add: kind rest IH)
  qed
qed

lemma cachedRecords_snapshot:
  "case snapshot_spec c cache zone s of
     (fetch, None, cache', s') \<Rightarrow>
       (\<exists>err. cachedRecords (traced c) cache zone (s, t) = (Inl err, cache', (s', t @ callsOf fetch))
          \<and> stepErrors fetch = [ClientError err])
       \<and> endpointsOf fetch = []
   | (fetch, Some recs, cache', s') \<Rightarrow>
       cachedRecords (traced c) cache zone (s, t) = (Inr recs, cache', (s', t @ callsOf fetch))
       \<and> stepErrors fetch = [] \<and> endpointsOf fetch = []"
proof (cases "cache zone")
  case (Some recs)
  then show ?thesis by (simp add: snapshot_spec_def cachedRecords_def)
next
  case None
  obtain r s1 where call: "getRecords c zone s = (r, s1)"
    by (cases "getRecords c zone s")
  show ?thesis
    by (cases r) (simp_all add: snapshot_spec_def cachedRecords_def None call failure_def)
qed

lemma deleteEndpoint_refines:
  "deleteEndpoint (traced c) zones ep (errs, cache, (s, t))
     = (case deleteEndpoint_spec c zones ep (cache, s) of
          (steps, cache', s') \<Rightarrow> (errs @ stepErrors steps, cache', (s', t @ callsOf steps)))"
proof -
  obtain zone e where z: "getZone zones ep = (zone, e)"
    by (cases "getZone zones ep")
  show ?thesis
  proof (cases e)
    case (Some err)
    then have "err = NoMatchingZone ep"
      using getZone_cases [OF z] by simp
    then show ?thesis by (simp add: deleteEndpoint_spec_def z Some)
  next
    case None
    obtain fetch recs cache' s1 where snap: "snapshot_spec c cache zone s = (fetch, recs, cache', s1)"
      by (cases "snapshot_spec c cache zone s")
    show ?thesis
    proof (cases recs)
      case noSnapshot: None
      then obtain err where
        "cachedRecords (traced c) cache zone (s, t) = (Inl err, cache', (s1, t @ callsOf fetch))"
        "stepErrors fetch = [ClientError err]"
        using cachedRecords_snapshot [of c cache zone s t] snap by auto
      then show ?thesis
        by (simp add: deleteEndpoint_spec_def z None snap noSnapshot)
    next
      case (Some rs)
      then have fetched:
        "cachedRecords (traced c) cache zone (s, t) = (Inr rs, cache', (s1, t @ callsOf fetch))"
        "stepErrors fetch = []"
        using cachedRecords_snapshot [of c cache zone s t] snap by auto
      obtain recIDs le where loc: "getRecIDs zone rs ep = (recIDs, le)"
        by (cases "getRecIDs zone rs ep")
      show ?thesis
      proof (cases le)
        case located: None
        obtain evs s2 where dels: "performAll c (map DeleteRecord recIDs) s1 = (evs, s2)"
          by (cases "performAll c (map DeleteRecord recIDs) s1")
        show ?thesis
          by (simp add: deleteEndpoint_spec_def z None snap Some fetched loc located dels
              deleteRecIDs_performAll)
      next
        case (Some lerr)
        then have "recIDs = []" "lerr = UnresolvedTargets"
          using getRecIDs_cases [OF loc] by simp_all
        then show ?thesis
          by (simp add: deleteEndpoint_spec_def z None snap \<open>recs = Some rs\<close> fetched loc Some)
      qed
    qed
  qed
qed

lemma deletePhase_refines:
  "deletePhase (traced c) zones eps (errs, cache, (s, t))
     = (case deletePhase_spec c zones eps (cache, s) of
          (steps, cache', s') \<Rightarrow> (errs @ stepErrors steps, cache', (s', t @ callsOf steps)))"
proof (induction eps arbitrary: errs cache s t)
  case Nil
  show ?case by simp
next
  case (Cons ep eps)
  obtain steps cache1 s1 where first: "deleteEndpoint_spec c zones ep (cache, s) = (steps, cache1, s1)"
    by (cases "deleteEndpoint_spec c zones ep (cache, s)")
  obtain steps' cache2 s2 where rest: "deletePhase_spec c zones eps (cache1, s1) = (steps', cache2, s2)"
    by (cases "deletePhase_spec c zones eps (cache1, s1)")
  have step: "deleteEndpoint (traced c) zones ep (errs, cache, (s, t))
      = (errs @ stepErrors steps, cache1, (s1, t @ callsOf steps))"
    by (simp only: deleteEndpoint_refines first prod.case)
  show ?case
    by (simp only: deletePhase.simps deletePhase_spec.simps step Cons.IH first rest prod.case
        append_assoc stepErrors_append callsOf_append)
qed

lemma createEndpoint_refines:
  "createEndpoint (traced c) zones ep (errs, (s, t))
     = (case createEndpoint_spec c zones ep s of
          (steps, s') \<Rightarrow> (errs @ stepErrors steps, (s', t @ callsOf steps)))"
proof -
  obtain zone e where z: "getZone zones ep = (zone, e)"
    by (cases "getZone zones ep")
  show ?thesis
  proof (cases e)
    case (Some err)
    then have "err = NoMatchingZone ep"
      using getZone_cases [OF z] by simp
    then show ?thesis by (simp add: createEndpoint_spec_def createCalls_def z Some)
  next
    case None
    let ?calls = "map (\<lambda>target. CreateRecord
                      \<lparr>ReqDomain = zone, ReqName = expectedName (DNSName ep) zone,
                       ReqType = RecordType ep, ReqTTL = RecordTTL ep, ReqContent = target\<rparr>)
                  (Targets ep)"
    obtain evs s1 where run: "performAll c ?calls s = (evs, s1)"
      by (cases "performAll c ?calls s")
    show ?thesis
      by (simp add: createEndpoint_spec_def createCalls_def z None run createTargets_performAll)
  qed
qed

lemma createPhase_refines:
  "createPhase (traced c) zones eps (errs, (s, t))
     = (case createPhase_spec c zones eps s of
          (steps, s') \<Rightarrow> (errs @ stepErrors steps, (s', t @ callsOf steps)))"
proof (induction eps arbitrary: errs s t)
  case Nil
  show ?case by simp
next
  case (Cons ep eps)
  obtain steps s1 where first: "createEndpoint_spec c zones ep s = (steps, s1)"
    by (cases "createEndpoint_spec c zones ep s")
  obtain steps' s2 where rest: "createPhase_spec c zones eps s1 = (steps', s2)"
    by (cases "createPhase_spec c zones eps s1")
  have step: "createEndpoint (traced c) zones ep (errs, (s, t))
      = (errs @ stepErrors steps, (s1, t @ callsOf steps))"
    by (simp only: createEndpoint_refines first prod.case)
  show ?case
    by (simp only: createPhase.simps createPhase_spec.simps step Cons.IH first rest prod.case
        append_assoc stepErrors_append callsOf_append)
qed


lemma updatePair_refines:
  assumes "fst (updatePair (traced c) zones oldEp newEp (errs, cache, (s, t))) = Inr errs'"
  shows "updatePair (traced c) zones oldEp newEp (errs, cache, (s, t))
     = (case updatePair_spec c zones (oldEp, newEp) (cache, s) of
          (steps, cache', s') \<Rightarrow> (Inr (errs @ stepErrors steps), cache', (s', t @ callsOf steps)))"
proof -
  obtain zone e where z: "getZone zones oldEp = (zone, e)"
    by (cases "getZone zones oldEp")
  show ?thesis
  proof (cases e)
    case (Some err)
    then have "err = NoMatchingZone oldEp"
      using getZone_cases [OF z] by simp
    then show ?thesis by (simp add: updatePair_spec_def z Some)
  next
    case None
    obtain fetch recs cache' s1 where snap: "snapshot_spec c cache zone s = (fetch, recs, cache', s1)"
      by (cases "snapshot_spec c cache zone s")
    show ?thesis
    proof (cases recs)
      case noSnapshot: None
      then obtain err where
        "cachedRecords (traced c) cache zone (s, t) = (Inl err, cache', (s1, t @ callsOf fetch))"
        "stepErrors fetch = [ClientError err]"
        using cachedRecords_snapshot [of c cache zone s t] snap by auto
      then show ?thesis
        by (simp add: updatePair_spec_def z None snap noSnapshot)
    next
      case (Some rs)
      then have fetched:
        "cachedRecords (traced c) cache zone (s, t) = (Inr rs, cache', (s1, t @ callsOf fetch))"
        "stepErrors fetch = []"
        using cachedRecords_snapshot [of c cache zone s t] snap by auto
      obtain recIDs le where loc: "getRecIDs zone rs oldEp = (recIDs, le)"
        by (cases "getRecIDs zone rs oldEp")
      show ?thesis
      proof (cases le)
        case located: None
        let ?js = "[0 ..< max (length (Targets oldEp)) (max (length (Targets newEp)) (length recIDs))]"
        have len: "length recIDs = length (Targets oldEp)"
          using getRecIDs_cases [OF loc] located by simp
        have rng: "\<forall>j\<in>set ?js. j < max (length (Targets oldEp)) (length (Targets newEp))"
          using len by auto
        obtain evs s2 where calls:
          "performAll c (map (alignCall zone oldEp newEp recIDs) ?js) s1 = (evs, s2)"
          by (cases "performAll c (map (alignCall zone oldEp newEp recIDs) ?js) s1")
        have align: "alignTargets (traced c) zone (relativeName (DNSName newEp) zone) oldEp newEp recIDs ?js
            (errs, (s1, t @ callsOf fetch)) = (Inr (errs @ failures evs), (s2, (t @ callsOf fetch) @ evs))"
          using alignTargets_performAll [OF len rng, of c zone errs s1 "t @ callsOf fetch"] calls
          by (simp only: relativeName_expected prod.case)
        show ?thesis
          using align calls
          by (simp add: updatePair_spec_def z None snap Some fetched loc located del: upt.simps)
      next
        case (Some lerr)
        then have unloc: "recIDs = []" "Targets oldEp \<noteq> []"
          using getRecIDs_cases [OF loc] by simp_all
        then have "0 < max (length (Targets oldEp)) (length (Targets newEp))"
          by (cases "Targets oldEp") simp_all
        then have "fst (updatePair (traced c) zones oldEp newEp (errs, cache, (s, t)))
            = Inl (IndexOutOfRange 0 0)"
          using unloc
          by (simp add: z None fetched loc Some alignTargets_unlocated del: upt.simps)
        then show ?thesis using assms by simp
      qed
    qed
  qed
qed

lemma updatePhase_refines:
  assumes "fst (updatePhase (traced c) zones updateOld updateNew i (errs, cache, (s, t))) = Inr errs'"
  shows "length updateOld \<le> length updateNew - i
     \<and> updatePhase (traced c) zones updateOld updateNew i (errs, cache, (s, t))
       = (case updatePhase_spec c zones (zip updateOld (drop i updateNew)) (cache, s) of
            (steps, cache', s') \<Rightarrow> (Inr (errs @ stepErrors steps), cache', (s', t @ callsOf steps)))"
  using assms
proof (induction updateOld arbitrary: i errs cache s t)
  case Nil
  show ?case by simp
next
  case (Cons oldEp updateOld)
  have i: "i < length updateNew"
  proof (rule ccontr)
    assume "\<not> i < length updateNew"
    then show False using Cons.prems by simp
  qed
  obtain r1 cache1 st1 where pair:
    "updatePair (traced c) zones oldEp (updateNew ! i) (errs, cache, (s, t)) = (r1, cache1, st1)"
    by (cases "updatePair (traced c) zones oldEp (updateNew ! i) (errs, cache, (s, t))")
  obtain errs1 where r1: "r1 = Inr errs1"
    using Cons.prems i pair by (cases r1) simp_all
  obtain steps cache1' s1 where spec1:
    "updatePair_spec c zones (oldEp, updateNew ! i) (cache, s) = (steps, cache1', s1)"
    by (cases "updatePair_spec c zones (oldEp, updateNew ! i) (cache, s)")
  have first: "updatePair (traced c) zones oldEp (updateNew ! i) (errs, cache, (s, t))
      = (Inr (errs @ stepErrors steps), cache1', (s1, t @ callsOf steps))"
    using updatePair_refines [of c zones oldEp "updateNew ! i" errs cache s t errs1] pair r1
    by (simp only: spec1 prod.case fst_conv)
  have rest_run: "updatePhase (traced c) zones (oldEp # updateOld) updateNew i (errs, cache, (s, t))
      = updatePhase (traced c) zones updateOld updateNew (Suc i)
          (errs @ stepErrors steps, cache1', (s1, t @ callsOf steps))"
    using i by (simp only: updatePhase.simps first if_True prod.case sum.case)
  then have "fst (updatePhase (traced c) zones updateOld updateNew (Suc i)
          (errs @ stepErrors steps, cache1', (s1, t @ callsOf steps))) = Inr errs'"
    using Cons.prems by simp
  note IH = Cons.IH [OF this]
  obtain steps' cache2 s2 where spec2:
    "updatePhase_spec c zones (zip updateOld (drop (Suc i) updateNew)) (cache1', s1) = (steps', cache2, s2)"
    by (cases "updatePhase_spec c zones (zip updateOld (drop (Suc i) updateNew)) (cache1', s1)")
  have zipped: "zip (oldEp # updateOld) (drop i updateNew)
      = (oldEp, updateNew ! i) # zip updateOld (drop (Suc i) updateNew)"
    using i by (simp add: Cons_nth_drop_Suc [symmetric])
  have "updatePhase (traced c) zones (oldEp # updateOld) updateNew i (errs, cache, (s, t))
      = (Inr (errs @ stepErrors (steps @ steps')), cache2, (s2, t @ callsOf (steps @ steps')))"
    using IH by (simp only: rest_run spec2 prod.case append_assoc stepErrors_append callsOf_append)
  moreover have "updatePhase_spec c zones (zip (oldEp # updateOld) (drop i updateNew)) (cache, s)
      = (steps @ steps', cache2, s2)"
    by (simp only: zipped updatePhase_spec.simps spec1 spec2 prod.case)
  moreover have "length (oldEp # updateOld) \<le> length updateNew - i"
  proof -
    have "length updateOld \<le> length updateNew - Suc i" using IH by blast
    then show ?thesis using i by simp
  qed
  ultimately show ?case by (simp only: prod.case)
qed

lemma snapshot_spec_endpoints:
  "snapshot_spec c cache zone s = (fetch, recs, cache', s') \<Longrightarrow> endpointsOf fetch = []"
  by (auto simp: snapshot_spec_def split: option.splits prod.splits sum.splits)

lemma deleteEndpoint_spec_endpoints:
  "endpointsOf (fst (deleteEndpoint_spec c zones ep (cache, s))) = [ep]"
  by (auto simp: deleteEndpoint_spec_def split: option.splits prod.splits
      dest: snapshot_spec_endpoints)

lemma deletePhase_spec_endpoints:
  "endpointsOf (fst (deletePhase_spec c zones eps (cache, s))) = eps"
proof (induction eps arbitrary: cache s)
  case Nil
  show ?case by simp
next
  case (Cons ep eps)
  obtain steps cache1 s1 where first: "deleteEndpoint_spec c zones ep (cache, s) = (steps, cache1, s1)"
    by (cases "deleteEndpoint_spec c zones ep (cache, s)")
  obtain steps' cache2 s2 where rest: "deletePhase_spec c zones eps (cache1, s1) = (steps', cache2, s2)"
    by (cases "deletePhase_spec c zones eps (cache1, s1)")
  show ?case
    using deleteEndpoint_spec_endpoints [of c zones ep cache s] Cons.IH [of cache1 s1]
    by (simp add: first rest)
qed

lemma createPhase_spec_endpoints:
  "endpointsOf (fst (createPhase_spec c zones eps s)) = eps"
proof (induction eps arbitrary: s)
  case Nil
  show ?case by simp
next
  case (Cons ep eps)
  obtain steps s1 where first: "createEndpoint_spec c zones ep s = (steps, s1)"
    by (cases "createEndpoint_spec c zones ep s")
  obtain steps' s2 where rest: "createPhase_spec c zones eps s1 = (steps', s2)"
    by (cases "createPhase_spec c zones eps s1")
  have "endpointsOf steps = [ep]"
    using first by (auto simp: createEndpoint_spec_def split: prod.splits)
  then show ?case
    using Cons.IH [of s1] by (simp add: first rest)
qed

lemma updatePair_spec_endpoints:
  "endpointsOf (fst (updatePair_spec c zones pair (cache, s))) = [fst pair]"
  by (cases pair)
     (auto simp: updatePair_spec_def split: option.splits prod.splits dest: snapshot_spec_endpoints)

lemma updatePhase_spec_endpoints:
  "endpointsOf (fst (updatePhase_spec c zones pairs (cache, s))) = map fst pairs"
proof (induction pairs arbitrary: cache s)
  case Nil
  show ?case by simp
next
  case (Cons pair pairs)
  obtain steps cache1 s1 where first: "updatePair_spec c zones pair (cache, s) = (steps, cache1, s1)"
    by (cases "updatePair_spec c zones pair (cache, s)")
  obtain steps' cache2 s2 where rest: "updatePhase_spec c zones pairs (cache1, s1) = (steps', cache2, s2)"
    by (cases "updatePhase_spec c zones pairs (cache1, s1)")
  show ?case
    using updatePair_spec_endpoints [of c zones pair cache s] Cons.IH [of cache1 s1]
    by (simp add: first rest)
qed


lemma applyPhases_refines:
  assumes "fst (applyPhases (traced c) zones changes (s, t)) = Returned result"
  shows "applyPhases (traced c) zones changes (s, t)
     = (case phases_spec c zones changes s of
          (steps, s') \<Rightarrow>
            (Returned (if countFailed steps = 0 then None
                       else Some (Aggregated (countFailed steps))),
             (s', t @ callsOf steps)))
     \<and> endpointsOf (fst (phases_spec c zones changes s))
         = Delete changes @ Create changes @ UpdateOld changes"
proof -
  obtain d cache1 s1 where dspec:
    "deletePhase_spec c zones (Delete changes) (Map.empty, s) = (d, cache1, s1)"
    by (cases "deletePhase_spec c zones (Delete changes) (Map.empty, s)")
  obtain cr s2 where cspec: "createPhase_spec c zones (Create changes) s1 = (cr, s2)"
    by (cases "createPhase_spec c zones (Create changes) s1")
  obtain u cache3 s3 where uspec:
    "updatePhase_spec c zones (zip (UpdateOld changes) (UpdateNew changes)) (Map.empty, s2)
       = (u, cache3, s3)"
    by (cases "updatePhase_spec c zones (zip (UpdateOld changes) (UpdateNew changes)) (Map.empty, s2)")
  have spec: "phases_spec c zones changes s = (d @ cr @ u, s3)"
    by (simp add: phases_spec_def dspec cspec uspec)
  have drun: "deletePhase (traced c) zones (Delete changes) ([], Map.empty, (s, t))
      = (stepErrors d, cache1, (s1, t @ callsOf d))"
    by (simp add: deletePhase_refines dspec)
  have crun: "createPhase (traced c) zones (Create changes) (stepErrors d, (s1, t @ callsOf d))
      = (stepErrors d @ stepErrors cr, (s2, t @ callsOf d @ callsOf cr))"
    by (simp add: createPhase_refines cspec)
  obtain r cache3' st3 where urun:
    "updatePhase (traced c) zones (UpdateOld changes) (UpdateNew changes) 0
       (stepErrors d @ stepErrors cr, Map.empty, (s2, t @ callsOf d @ callsOf cr)) = (r, cache3', st3)"
    by (cases "updatePhase (traced c) zones (UpdateOld changes) (UpdateNew changes) 0
       (stepErrors d @ stepErrors cr, Map.empty, (s2, t @ callsOf d @ callsOf cr))")
  have run: "applyPhases (traced c) zones changes (s, t)
      = (case r of Inl p \<Rightarrow> (Panicked p, st3)
         | Inr errs \<Rightarrow>
             (if length errs > 0 then (Returned (Some (Aggregated (length errs))), st3)
              else (Returned None, st3)))"
    by (cases r) (simp_all add: applyPhases_def drun crun urun)
  obtain errs where r: "r = Inr errs"
    using assms run by (cases r) simp_all
  have refined: "length (UpdateOld changes) \<le> length (UpdateNew changes) - 0
     \<and> updatePhase (traced c) zones (UpdateOld changes) (UpdateNew changes) 0
          (stepErrors d @ stepErrors cr, Map.empty, (s2, t @ callsOf d @ callsOf cr))
       = (case updatePhase_spec c zones (zip (UpdateOld changes) (drop 0 (UpdateNew changes)))
                 (Map.empty, s2) of
            (steps, cache', s') \<Rightarrow>
              (Inr ((stepErrors d @ stepErrors cr) @ stepErrors steps), cache',
               (s', (t @ callsOf d @ callsOf cr) @ callsOf steps)))"
    by (rule updatePhase_refines [of _ _ _ _ _ _ _ _ _ errs]) (simp add: urun r)
  then have len: "length (UpdateOld changes) \<le> length (UpdateNew changes)"
    by simp
  have errs: "errs = stepErrors (d @ cr @ u)" and st3: "st3 = (s3, t @ callsOf (d @ cr @ u))"
    using refined urun r by (simp_all add: uspec)
  have result: "applyPhases (traced c) zones changes (s, t)
      = (Returned (if countFailed (d @ cr @ u) = 0 then None
                   else Some (Aggregated (countFailed (d @ cr @ u)))),
         (s3, t @ callsOf (d @ cr @ u)))"
    using run by (simp add: r errs st3 countFailed_stepErrors)
  have "map fst (zip (UpdateOld changes) (UpdateNew changes)) = UpdateOld changes"
    using len by (simp add: map_fst_zip_take)
  then have "endpointsOf (d @ cr @ u) = Delete changes @ Create changes @ UpdateOld changes"
    using deletePhase_spec_endpoints [of c zones "Delete changes" Map.empty s]
      createPhase_spec_endpoints [of c zones "Create changes" s1]
      updatePhase_spec_endpoints [of c zones "zip (UpdateOld changes) (UpdateNew changes)" Map.empty s2]
    by (simp add: dspec cspec uspec)
  then show ?thesis
    using result by (simp add: spec)
qed

text \<open>
  C7, as the code has it. For a plan with changes: a failed login is returned as it is,
  and no other call is made; a failed zone listing is returned as it is, after the logout,
  and no phase runs. Otherwise, when the call returns: the steps taken are those of the
  three phases as the specification lists them, so every endpoint of Delete, then of
  Create, then of UpdateOld is attempted, and every backend call of the list is issued,
  whatever failed before it; the result is an error exactly when at least one step has
  failed (a zone resolution, a snapshot fetch, a locator run, or a delete, create or update
  call), and the aggregate error carries the number of failed steps.
\<close>

theorem ApplyChanges_aggregate:
  assumes "HasChanges changes"
  shows "case login c s of
      (Some err, s1) \<Rightarrow>
        ApplyChanges (traced c) changes (s, [])
          = (Returned (Some (ClientError err)), (s1, [(Login, Some err)]))
    | (None, s1) \<Rightarrow>
        (case getZones c s1 of
           (Inl err, s2) \<Rightarrow>
             ApplyChanges (traced c) changes (s, [])
               = (Returned (Some (ClientError err)),
                  (snd (logout c s2),
                   [(Login, None), (GetZones, Some err), (Logout, fst (logout c s2))]))
         | (Inr zones, s2) \<Rightarrow>
             (case fst (ApplyChanges (traced c) changes (s, [])) of
                Panicked p \<Rightarrow> True
              | Returned result \<Rightarrow>
                  (case phases_spec c zones changes s2 of
                     (steps, s3) \<Rightarrow>
                       ApplyChanges (traced c) changes (s, [])
                         = (Returned (if countFailed steps = 0 then None
                                      else Some (Aggregated (countFailed steps))),
                            (snd (logout c s3),
                             [(Login, None), (GetZones, None)] @ callsOf steps
                               @ [(Logout, fst (logout c s3))]))
                       \<and> endpointsOf steps
                           = Delete changes @ Create changes @ UpdateOld changes)))"
proof -
  obtain lr s1 where l: "login c s = (lr, s1)"
    by (cases "login c s")
  show ?thesis
  proof (cases lr)
    case (Some err)
    then show ?thesis using assms by (simp add: ApplyChanges_def l)
  next
    case None
    obtain zr s2 where z: "getZones c s1 = (zr, s2)"
      by (cases "getZones c s1")
    show ?thesis
    proof (cases zr)
      case (Inl err)
      obtain lo s4 where out: "logout c s2 = (lo, s4)"
        by (cases "logout c s2")
      show ?thesis using assms by (simp add: ApplyChanges_def l None z Inl out failure_def)
    next
      case (Inr zones)
      let ?t0 = "[(Login, None), (GetZones, None)]"
      obtain res st3 where phases: "applyPhases (traced c) zones changes (s2, ?t0) = (res, st3)"
        by (cases "applyPhases (traced c) zones changes (s2, ?t0)")
      obtain s3 T3 where st3: "st3 = (s3, T3)" by (cases st3)
      obtain lo s4 where out: "logout c s3 = (lo, s4)"
        by (cases "logout c s3")
      have run: "ApplyChanges (traced c) changes (s, []) = (res, (s4, T3 @ [(Logout, lo)]))"
        using assms by (simp add: ApplyChanges_def l None z Inr failure_def phases st3 out)
      show ?thesis
      proof (cases res)
        case (Panicked p)
        then show ?thesis by (simp add: l None z Inr run)
      next
        case (Returned result)
        obtain steps s3' where spec: "phases_spec c zones changes s2 = (steps, s3')"
          by (cases "phases_spec c zones changes s2")
        have "fst (applyPhases (traced c) zones changes (s2, ?t0)) = Returned result"
          by (simp add: phases Returned)
        note refined = applyPhases_refines [OF this]
        then have eq: "res = Returned (if countFailed steps = 0 then None
                                      else Some (Aggregated (countFailed steps)))"
            "s3 = s3'" "T3 = ?t0 @ callsOf steps"
          and eps: "endpointsOf steps = Delete changes @ Create changes @ UpdateOld changes"
          by (simp_all add: phases st3 spec)
        have out': "logout c s3' = (lo, s4)"
          using out eq(2) by simp
        show ?thesis
          using eps by (simp add: l None z Inr run eq spec out')
      qed
    qed
  qed
qed

text \<open>
  C8, as the code has it. When the plan has changes and the login and the zone listing
  succeed, the calls of the run are: the login, the zone listing, the calls of the delete
  phase (fetches and deletes only), then the calls of the create phase (creates only, so
  no fetch), then the calls of the update phase started on an empty cache, then the
  logout. In the delete phase and in the update phase a zone is fetched only for an
  endpoint that resolves to it and only while no fetch of it has succeeded in that phase,
  so a zone is fetched successfully at most once per phase; the update phase fetches the
  zone of its first pair whatever the delete phase fetched.
\<close>

theorem ApplyChanges_phase_order:
  assumes "HasChanges changes"
    and "login c s = (None, s1)"
    and "getZones c s1 = (Inr zones, s2)"
  shows "\<exists>Td Tc Tu lo errs1 cache1 st1 errs2 st2 r cache3 st3.
      deletePhase (traced c) zones (Delete changes)
          ([], Map.empty, (s2, [(Login, None), (GetZones, None)]))
        = (errs1, cache1, (st1, [(Login, None), (GetZones, None)] @ Td))
    \<and> createPhase (traced c) zones (Create changes)
          (errs1, (st1, [(Login, None), (GetZones, None)] @ Td))
        = (errs2, (st2, [(Login, None), (GetZones, None)] @ Td @ Tc))
    \<and> updatePhase (traced c) zones (UpdateOld changes) (UpdateNew changes) 0
          (errs2, Map.empty, (st2, [(Login, None), (GetZones, None)] @ Td @ Tc))
        = (r, cache3, (st3, [(Login, None), (GetZones, None)] @ Td @ Tc @ Tu))
    \<and> snd (snd (ApplyChanges (traced c) changes (s, [])))
        = [(Login, None), (GetZones, None)] @ Td @ Tc @ Tu @ [(Logout, lo)]
    \<and> list_all (\<lambda>ev. isFetch (fst ev) \<or> isDelete (fst ev)) Td
    \<and> list_all (\<lambda>ev. isCreate (fst ev)) Tc
    \<and> list_all (\<lambda>ev. isFetch (fst ev) \<or> isMutation (fst ev)) Tu
    \<and> lazyFetches {} Td \<and> distinct (fetched Td)
    \<and> lazyFetches {} Tu \<and> distinct (fetched Tu)
    \<and> set (fetchCalls Td) \<subseteq> set (resolvedZones zones (Delete changes))
    \<and> set (fetchCalls Tu) \<subseteq> set (resolvedZones zones (UpdateOld changes))
    \<and> (case UpdateOld changes of
          [] \<Rightarrow> True
        | oldEp # updateOld \<Rightarrow>
            (if UpdateNew changes \<noteq> [] \<and> snd (getZone zones oldEp) = None
             then \<exists>r0 T'. Tu = (GetRecords (fst (getZone zones oldEp)), r0) # T'
             else True))"
proof -
  let ?t0 = "[(Login, None), (GetZones, None)]"
  obtain Td Tc Tu errs1 cache1 st1 errs2 st2 r cache3 st3 where phases:
    "deletePhase (traced c) zones (Delete changes) ([], Map.empty, (s2, ?t0)) = (errs1, cache1, (st1, ?t0 @ Td))"
    "createPhase (traced c) zones (Create changes) (errs1, (st1, ?t0 @ Td)) = (errs2, (st2, ?t0 @ Td @ Tc))"
    "updatePhase (traced c) zones (UpdateOld changes) (UpdateNew changes) 0
        (errs2, Map.empty, (st2, ?t0 @ Td @ Tc)) = (r, cache3, (st3, ?t0 @ Td @ Tc @ Tu))"
    "applyPhases (traced c) zones changes (s2, ?t0)
        = (case r of Inl p \<Rightarrow> Panicked p
           | Inr errs \<Rightarrow> Returned (if length errs > 0 then Some (Aggregated (length errs)) else None),
           (st3, ?t0 @ Td @ Tc @ Tu))"
    "list_all (\<lambda>ev. isFetch (fst ev) \<or> isDelete (fst ev)) Td"
    "list_all (\<lambda>ev. isCreate (fst ev)) Tc"
    "list_all (\<lambda>ev. isFetch (fst ev) \<or> isMutation (fst ev)) Tu"
    "lazyFetches {} Td" "lazyFetches {} Tu"
    "set (fetchCalls Td) \<subseteq> set (resolvedZones zones (Delete changes))"
    "set (fetchCalls Tu) \<subseteq> set (resolvedZones zones (UpdateOld changes))"
    using applyPhases_run [of c zones changes s2 ?t0]
    by (elim exE conjE) (rule that, assumption+)
  obtain lo s4 where run:
    "ApplyChanges (traced c) changes (s, [])
       = (case r of Inl p \<Rightarrow> Panicked p
           | Inr errs \<Rightarrow> Returned (if length errs > 0 then Some (Aggregated (length errs)) else None),
          (s4, (?t0 @ Td @ Tc @ Tu) @ [(Logout, lo)]))"
    using ApplyChanges_run [OF assms(1-3) phases(4)] by blast
  have log: "snd (snd (ApplyChanges (traced c) changes (s, []))) = ?t0 @ Td @ Tc @ Tu @ [(Logout, lo)]"
    using run by simp
  have dist: "distinct (fetched Td)" "distinct (fetched Tu)"
    using lazyFetches_distinct [OF phases(8)] lazyFetches_distinct [OF phases(9)] by simp_all
  have first: "(case UpdateOld changes of
          [] \<Rightarrow> True
        | oldEp # updateOld \<Rightarrow>
            (if UpdateNew changes \<noteq> [] \<and> snd (getZone zones oldEp) = None
             then \<exists>r0 T'. Tu = (GetRecords (fst (getZone zones oldEp)), r0) # T'
             else True))"
  proof (cases "UpdateOld changes")
    case Nil
    then show ?thesis by simp
  next
    case (Cons oldEp updateOld)
    show ?thesis
    proof (cases "UpdateNew changes \<noteq> [] \<and> snd (getZone zones oldEp) = None")
      case False
      then show ?thesis using Cons by auto
    next
      case True
      have "updatePhase (traced c) zones (oldEp # updateOld) (UpdateNew changes) 0
          (errs2, Map.empty, (st2, ?t0 @ Td @ Tc)) = (r, cache3, (st3, (?t0 @ Td @ Tc) @ Tu))"
        using phases(3) Cons by simp
      then have "\<exists>r0 T'. Tu = (GetRecords (fst (getZone zones oldEp)), r0) # T'"
        using True by (intro updatePhase_first_fetch [of 0 "UpdateNew changes" zones oldEp Map.empty
              c updateOld errs2 st2 "?t0 @ Td @ Tc" r cache3 st3 Tu]) simp_all
      then show ?thesis using Cons True by simp
    qed
  qed
  show ?thesis
    using phases(1-3) log phases(5-7) phases(8) dist(1) phases(9) dist(2) phases(10,11) first
    by (intro exI [of _ Td] exI [of _ Tc] exI [of _ Tu] exI [of _ lo] exI [of _ errs1]
          exI [of _ cache1] exI [of _ st1] exI [of _ errs2] exI [of _ st2] exI [of _ r]
          exI [of _ cache3] exI [of _ st3] conjI) assumption+
qed

text \<open>
  A pair that grows from one target to two: position 0 updates record 7 with the old TTL,
  position 1 creates the new target with the new TTL.
\<close>

theorem updatePair_alignment_witness:
  "getZone [''example.com''] (exampleEndpoint [''1.1.1.1''] 300) = (''example.com'', None)
   \<and> cachedRecords (traced tableClient) Map.empty ''example.com'' (exampleBackend, [])
       = (Inr [exampleRecord], [''example.com'' \<mapsto> [exampleRecord]],
          (exampleBackend, [(GetRecords ''example.com'', None)]))
   \<and> getRecIDs ''example.com'' [exampleRecord] (exampleEndpoint [''1.1.1.1''] 300) = ([7], None)
   \<and> (\<exists>T s'. updatePair (traced tableClient) [''example.com'']
           (exampleEndpoint [''1.1.1.1''] 300) (exampleEndpoint [''1.1.1.1'', ''2.2.2.2''] 600)
           ([], Map.empty, (exampleBackend, []))
         = (Inr ([] @ failures T), [''example.com'' \<mapsto> [exampleRecord]],
            (s', [(GetRecords ''example.com'', None)] @ T))
       \<and> map fst T
         = [UpdateRecord 7 \<lparr>ReqDomain = ''example.com'', ReqName = ''a'', ReqType = ''A'',
                            ReqTTL = 300, ReqContent = ''1.1.1.1''\<rparr>,
            CreateRecord \<lparr>ReqDomain = ''example.com'', ReqName = ''a'', ReqType = ''A'',
                          ReqTTL = 600, ReqContent = ''2.2.2.2''\<rparr>])"
proof -
  have z: "getZone [''example.com''] (exampleEndpoint [''1.1.1.1''] 300) = (''example.com'', None)"
    by (simp add: getZone_def HasSuffix_def)
  have f: "cachedRecords (traced tableClient) Map.empty ''example.com'' (exampleBackend, [])
       = (Inr [exampleRecord], [''example.com'' \<mapsto> [exampleRecord]],
          (exampleBackend, [(GetRecords ''example.com'', None)]))"
    by (simp add: cachedRecords_def tableClient_def failure_def)
  have l: "getRecIDs ''example.com'' [exampleRecord] (exampleEndpoint [''1.1.1.1''] 300) = ([7], None)"
    by (simp add: getRecIDs_def)
  have calls: "map (alignCall ''example.com'' (exampleEndpoint [''1.1.1.1''] 300)
          (exampleEndpoint [''1.1.1.1'', ''2.2.2.2''] 600) [7])
        [0 ..< max (length (Targets (exampleEndpoint [''1.1.1.1''] 300)))
                 (max (length (Targets (exampleEndpoint [''1.1.1.1'', ''2.2.2.2''] 600))) (length [7 :: int]))]
      = [UpdateRecord 7 \<lparr>ReqDomain = ''example.com'', ReqName = ''a'', ReqType = ''A'',
                            ReqTTL = 300, ReqContent = ''1.1.1.1''\<rparr>,
            CreateRecord \<lparr>ReqDomain = ''example.com'', ReqName = ''a'', ReqType = ''A'',
                          ReqTTL = 600, ReqContent = ''2.2.2.2''\<rparr>]"
    by (simp add: alignCall_def expectedName_def HasSuffix_def upt_conv_Cons)
  show ?thesis
    using z f l
      updatePair_alignment [OF z f l, of "exampleEndpoint [''1.1.1.1'', ''2.2.2.2''] 600" "[]"]
    unfolding calls by blast
qed

text \<open>
  The claim as the specification states it fails for a pair whose zone resolves and whose
  snapshot cannot be fetched: the fetch error is recorded, the pair is skipped, and no
  update is issued for position 0.
\<close>

theorem updatePair_fetch_failure_counterexample:
  "getZone [''example.com''] (exampleEndpoint [''1.1.1.1''] 300) = (''example.com'', None)
   \<and> fst (updatePair (traced tableClient) [''example.com'']
           (exampleEndpoint [''1.1.1.1''] 300) (exampleEndpoint [''2.2.2.2''] 300)
           ([], Map.empty, (exampleBackend\<lparr>zoneTable := []\<rparr>, [])))
       = Inr [ClientError ''unable to retrieve records'']
   \<and> snd (snd (snd (updatePair (traced tableClient) [''example.com'']
           (exampleEndpoint [''1.1.1.1''] 300) (exampleEndpoint [''2.2.2.2''] 300)
           ([], Map.empty, (exampleBackend\<lparr>zoneTable := []\<rparr>, [])))))
       = [(GetRecords ''example.com'', Some ''unable to retrieve records'')]"
  by (simp add: getZone_def HasSuffix_def cachedRecords_def tableClient_def failure_def)

text \<open>
  A run with a Delete endpoint outside every zone and a pair that grows from one target to
  two on a backend that refuses every mutation: three failed steps.
\<close>

lemma growing_run:
  "fst (ApplyChanges (traced tableClient) growingChanges (refusingBackend, []))
     = Returned (Some (Aggregated 3))"
  by (simp add: ApplyChanges_def HasChanges_def applyPhases_def tableClient_def getZone_def
      HasSuffix_def cachedRecords_def getRecIDs_def relativeName_def TrimSuffix_def failure_def
      upt_conv_Cons)

lemma growing_spec:
  "phases_spec tableClient [''example.com''] growingChanges refusingBackend
     = (growingSteps, refusingBackend)"
  by (simp add: phases_spec_def deleteEndpoint_spec_def updatePair_spec_def snapshot_spec_def
      tableClient_def getZone_def HasSuffix_def getRecIDs_def alignCall_def expectedName_def
      upt_conv_Cons)

theorem ApplyChanges_aggregate_witness:
  "HasChanges growingChanges
   \<and> phases_spec tableClient [''example.com''] growingChanges refusingBackend
       = (growingSteps, refusingBackend)
   \<and> countFailed growingSteps = 3
   \<and> ApplyChanges (traced tableClient) growingChanges (refusingBackend, [])
       = (Returned (Some (Aggregated 3)),
          (refusingBackend,
           [(Login, None), (GetZones, None)] @ callsOf growingSteps @ [(Logout, None)]))
   \<and> endpointsOf growingSteps
       = Delete growingChanges @ Create growingChanges @ UpdateOld growingChanges"
proof -
  have h: "HasChanges growingChanges"
    by (simp add: HasChanges_def)
  have n: "countFailed growingSteps = 3"
    by (simp add: countFailed_def)
  have "ApplyChanges (traced tableClient) growingChanges (refusingBackend, [])
       = (Returned (Some (Aggregated 3)),
          (refusingBackend,
           [(Login, None), (GetZones, None)] @ callsOf growingSteps @ [(Logout, None)]))
     \<and> endpointsOf growingSteps
       = Delete growingChanges @ Create growingChanges @ UpdateOld growingChanges"
    using ApplyChanges_aggregate [OF h, of tableClient refusingBackend] growing_run growing_spec n
    by (simp add: tableClient_def)
  then show ?thesis using h growing_spec n by blast
qed

text \<open>
  The claim as the specification states it fails when the login fails: the call returns
  the login error itself, not an aggregate, and no step of any phase has run.
\<close>

theorem ApplyChanges_login_failure_counterexample:
  "HasChanges exampleChanges
   \<and> ApplyChanges (traced tableClient) exampleChanges
         (exampleBackend\<lparr>loginResult := Some ''denied''\<rparr>, [])
       = (Returned (Some (ClientError ''denied'')),
          (exampleBackend\<lparr>loginResult := Some ''denied''\<rparr>, [(Login, Some ''denied'')]))"
  by (simp add: ApplyChanges_def HasChanges_def tableClient_def)

theorem ApplyChanges_phase_order_witness:
  "HasChanges exampleChanges
   \<and> login tableClient refusingBackend = (None, refusingBackend)
   \<and> getZones tableClient refusingBackend = (Inr [''example.com''], refusingBackend)
   \<and> (\<exists>Td Tc Tu lo.
        snd (snd (ApplyChanges (traced tableClient) exampleChanges (refusingBackend, [])))
          = [(Login, None), (GetZones, None)] @ Td @ Tc @ Tu @ [(Logout, lo)]
      \<and> list_all (\<lambda>ev. isFetch (fst ev) \<or> isDelete (fst ev)) Td
      \<and> list_all (\<lambda>ev. isCreate (fst ev)) Tc
      \<and> list_all (\<lambda>ev. isFetch (fst ev) \<or> isMutation (fst ev)) Tu
      \<and> distinct (fetched Td) \<and> distinct (fetched Tu))"
proof -
  have h1: "HasChanges exampleChanges"
    by (simp add: HasChanges_def)
  have h2: "login tableClient refusingBackend = (None, refusingBackend)"
    by (simp add: tableClient_def)
  have h3: "getZones tableClient refusingBackend = (Inr [''example.com''], refusingBackend)"
    by (simp add: tableClient_def)
  show ?thesis
    using h1 h2 h3 ApplyChanges_phase_order [OF h1 h2 h3] by blast
qed

text \<open>
  The claim as the specification states it fails when a fetch fails: the failure is not
  cached, and the second endpoint of the zone fetches it again in the same phase.
\<close>

theorem ApplyChanges_refetch_counterexample:
  "map fst (snd (snd (ApplyChanges (traced tableClient)
       \<lparr>Create = [], UpdateOld = [], UpdateNew = [],
        Delete = [exampleEndpoint [''1.1.1.1''] 300, exampleEndpoint [''2.2.2.2''] 300]\<rparr>
       (exampleBackend\<lparr>zoneTable := []\<rparr>, []))))
     = [Login, GetZones, GetRecords ''example.com'', GetRecords ''example.com'', Logout]"
  by (simp add: ApplyChanges_def HasChanges_def applyPhases_def tableClient_def getZone_def
      HasSuffix_def cachedRecords_def failure_def)

end
